theory Spec2Isabelle
  imports Main "HOL-Library.AList"
begin

section \<open>Faults and fallible loops\<close>

text \<open>
  The algorithms of \<^verbatim>\<open>graph_algorithms.cpp\<close> raise no error of their own, but the
  operations they call can fail: \<^verbatim>\<open>std::map::at\<close> throws on a missing key, an iterator
  of an empty container must not be dereferenced, and the graph container states
  preconditions. Each such failure is a value of \<open>fault\<close>; a computation that may
  fail returns \<open>fault + 'a\<close> with \<open>Inl\<close> for the failure.
\<close>

datatype fault =
    Out_Of_Range          \<comment> \<open>\<^verbatim>\<open>std::map::at\<close> on a key that is not in the map\<close>
  | Empty_Deref           \<comment> \<open>\<^verbatim>\<open>*(g.cbegin())\<close> or \<^verbatim>\<open>back()\<close> on an empty container\<close>
  | Missing_Vertex        \<comment> \<open>a container operation on a vertex that is not in the graph\<close>
  | Not_Adjacent          \<comment> \<open>\<^verbatim>\<open>get_edge_weight\<close> on a pair without an edge\<close>
  | Uninitialised_Vertex  \<comment> \<open>\<^verbatim>\<open>min_distance\<close> returned its never-assigned local\<close>

text \<open>A \<^verbatim>\<open>for\<close> loop over a sequence whose body may fail: the first fault ends the loop.\<close>

fun for_each :: "('s \<Rightarrow> 'a \<Rightarrow> fault + 's) \<Rightarrow> 's \<Rightarrow> 'a list \<Rightarrow> fault + 's" where
  "for_each body s [] = Inr s"
| "for_each body s (x # xs) =
     (case body s x of Inl e \<Rightarrow> Inl e | Inr s' \<Rightarrow> for_each body s' xs)"

section \<open>Machine integers\<close>

text \<open>
  Weights and distances are C++ \<^verbatim>\<open>int\<close>s, 32 bits wide. They are modelled as
  \<open>int\<close>, and the one arithmetic operation of the file, the addition in the relaxation
  step of \<^verbatim>\<open>dijkstras\<close>, wraps around in two's complement. C++ leaves a signed
  addition that overflows undefined; the wrap-around is what the usual targets compute.
  The sentinel for an infinite distance is \<^verbatim>\<open>std::numeric_limits<int>::max()\<close>.
\<close>

definition INT_MAX :: int where
  "INT_MAX = 2147483647"

definition INT_MIN :: int where
  "INT_MIN = - 2147483648"

definition int_add :: "int \<Rightarrow> int \<Rightarrow> int" where
  "int_add a b = (a + b + 2147483648) mod 4294967296 - 2147483648"

section \<open>The graph container\<close>

text \<open>
  Modelled from the spec: the class \<^verbatim>\<open>weighted_graph\<close> of \<^verbatim>\<open>weighted_graph.hpp\<close>,
  which is not among the sources. The spec describes it as a collection of vertices,
  enumerated in a stable native order, plus undirected weighted edges between pairs of
  vertices. The vertices are kept as a list in enumeration order, the edges as an
  association list from ordered pairs of vertices to weights; an undirected edge is
  stored in both directions.
\<close>

record 'v weighted_graph =
  vertex_list :: "'v list"
  edge_list :: "(('v \<times> 'v) \<times> int) list"

text \<open>Modelled from the spec: the weight stored for the ordered pair \<open>(u, v)\<close>, if any.\<close>

definition edge_map :: "'v weighted_graph \<Rightarrow> 'v \<Rightarrow> 'v \<Rightarrow> int option" where
  "edge_map g u v = map_of (edge_list g) (u, v)"

text \<open>
  Modelled from the spec: the invariants of the data model. The enumeration has no
  repetition, edges only connect existing vertices, adjacency is symmetric with equal
  weights, and every weight is a value of \<^verbatim>\<open>int\<close>.
\<close>

definition wf_graph :: "'v weighted_graph \<Rightarrow> bool" where
  "wf_graph g \<longleftrightarrow>
     distinct (vertex_list g) \<and>
     (\<forall>e \<in> set (edge_list g).
        fst (fst e) \<in> set (vertex_list g) \<and> snd (fst e) \<in> set (vertex_list g) \<and>
        INT_MIN \<le> snd e \<and> snd e \<le> INT_MAX) \<and>
     (\<forall>u \<in> set (vertex_list g). \<forall>v \<in> set (vertex_list g). edge_map g u v = edge_map g v u)"

text \<open>Modelled from the spec: \<^emph>\<open>construct an empty graph\<close>.\<close>

definition empty_graph :: "'v weighted_graph" where
  "empty_graph = \<lparr>vertex_list = [], edge_list = []\<rparr>"

text \<open>Modelled from the spec: \<^emph>\<open>report vertex count\<close>.\<close>

definition num_vertices :: "'v weighted_graph \<Rightarrow> nat" where
  "num_vertices g = length (vertex_list g)"

text \<open>Modelled from the spec: \<^emph>\<open>test adjacency of two vertices\<close>.\<close>

definition are_adjacent :: "'v weighted_graph \<Rightarrow> 'v \<Rightarrow> 'v \<Rightarrow> bool" where
  "are_adjacent g u v \<longleftrightarrow> edge_map g u v \<noteq> None"

text \<open>
  Modelled from the spec: \<^emph>\<open>get edge weight of an adjacent pair (undefined if not
  adjacent)\<close>; the undefined case is a fault.
\<close>

definition get_edge_weight :: "'v weighted_graph \<Rightarrow> 'v \<Rightarrow> 'v \<Rightarrow> fault + int" where
  "get_edge_weight g u v =
     (case edge_map g u v of None \<Rightarrow> Inl Not_Adjacent | Some w \<Rightarrow> Inr w)"

text \<open>
  Modelled from the spec: \<^emph>\<open>enumerate all neighbors of a vertex as (neighbor, weight)
  pairs\<close>, here in the enumeration order of the vertices.
\<close>

definition neighbours :: "'v weighted_graph \<Rightarrow> 'v \<Rightarrow> ('v \<times> int) list" where
  "neighbours g u =
     map (\<lambda>n. (n, the (edge_map g u n))) (filter (are_adjacent g u) (vertex_list g))"

text \<open>
  Modelled from the spec: \<^emph>\<open>add a vertex\<close>, at the end of the enumeration; a vertex
  that is already present is not added again.
\<close>

definition add_vertex :: "'v weighted_graph \<Rightarrow> 'v \<Rightarrow> 'v weighted_graph" where
  "add_vertex g v =
     (if v \<in> set (vertex_list g) then g else g\<lparr>vertex_list := vertex_list g @ [v]\<rparr>)"

text \<open>
  Modelled from the spec: \<^emph>\<open>add a weighted edge between two existing vertices\<close>, in
  both directions; an endpoint that is not in the graph is a fault.
\<close>

definition add_edge :: "'v weighted_graph \<Rightarrow> 'v \<Rightarrow> 'v \<Rightarrow> int \<Rightarrow> fault + 'v weighted_graph" where
  "add_edge g u v w =
     (if u \<in> set (vertex_list g) \<and> v \<in> set (vertex_list g)
      then Inr (g\<lparr>edge_list :=
                   AList.update (v, u) w (AList.update (u, v) w (edge_list g))\<rparr>)
      else Inl Missing_Vertex)"

text \<open>Modelled from the spec: \<^emph>\<open>remove a vertex (and its incident edges)\<close>.\<close>

definition remove_vertex :: "'v weighted_graph \<Rightarrow> 'v \<Rightarrow> 'v weighted_graph" where
  "remove_vertex g v =
     \<lparr>vertex_list = removeAll v (vertex_list g),
      edge_list = filter (\<lambda>e. fst (fst e) \<noteq> v \<and> snd (fst e) \<noteq> v) (edge_list g)\<rparr>"

section \<open>The traversal engine\<close>

text \<open>
  Modelled from the spec: \<^verbatim>\<open>depth_first\<close> of \<^verbatim>\<open>easy_weighted_graph_algorithms.cpp\<close>,
  which is not among the sources. The spec asks for the vertices reachable from the start
  vertex, the start included, each once, in any exploration order, and makes a start
  vertex outside the graph a precondition violation. The model is the stack-based
  exploration.
\<close>

text \<open>
  Modelled from the spec: the vertices of the graph that the traversal has not yet
  recorded; their number is the measure by which the traversal terminates.
\<close>

definition unseen :: "'v weighted_graph \<Rightarrow> 'v list \<Rightarrow> 'v list" where
  "unseen g seen = filter (\<lambda>v. v \<notin> set seen) (vertex_list g)"

text \<open>
  Modelled from the spec: the exploration itself. \<open>traverse g stack seen\<close> pops a
  vertex, skips it when it has been seen, and otherwise records it and pushes its
  neighbours.
\<close>

function traverse :: "'v weighted_graph \<Rightarrow> 'v list \<Rightarrow> 'v list \<Rightarrow> 'v list" where
  "traverse g [] seen = seen"
| "traverse g (x # stack) seen =
     (if x \<in> set seen \<or> x \<notin> set (vertex_list g) then traverse g stack seen
      else traverse g (map fst (neighbours g x) @ stack) (seen @ [x]))"
  by pat_completeness auto
termination
proof (relation "measures [\<lambda>(g, stack, seen). length (unseen g seen),
                             \<lambda>(g, stack, seen). length stack]")
  fix g :: "'v weighted_graph" and x :: 'v and stack seen :: "'v list"
  assume "\<not> (x \<in> set seen \<or> x \<notin> set (vertex_list g))"
  then have x: "x \<in> set (vertex_list g)" "x \<notin> set seen"
    by simp_all
  have "unseen g (seen @ [x]) = filter (\<lambda>v. v \<noteq> x) (unseen g seen)"
    by (auto simp: unseen_def intro: filter_cong)
  moreover have "x \<in> set (unseen g seen)"
    using x by (simp add: unseen_def)
  ultimately have "length (unseen g (seen @ [x])) < length (unseen g seen)"
    by (simp add: length_filter_less)
  then show "((g, map fst (neighbours g x) @ stack, seen @ [x]), (g, x # stack, seen))
      \<in> measures [\<lambda>(g, stack, seen). length (unseen g seen),
                   \<lambda>(g, stack, seen). length stack]"
    by simp
qed auto

declare traverse.simps [simp del]

text \<open>
  Modelled from the spec: \<^verbatim>\<open>depth_first(graph, start)\<close>, a fault when \<open>start\<close> is not
  a vertex of the graph.
\<close>

definition depth_first :: "'v weighted_graph \<Rightarrow> 'v \<Rightarrow> fault + 'v list" where
  "depth_first g start =
     (if start \<in> set (vertex_list g) then Inr (traverse g [start] [])
      else Inl Missing_Vertex)"

section \<open>The connectivity analyser\<close>

definition is_empty :: "'v weighted_graph \<Rightarrow> bool" where
  "is_empty g \<longleftrightarrow> num_vertices g = 0"

text \<open>
  \<^verbatim>\<open>is_empty(g) || depth_first(g, *(g.cbegin())).size() == g.num_vertices()\<close>: the
  right operand is evaluated only for a graph that is not empty.
\<close>

definition is_connected :: "'v weighted_graph \<Rightarrow> fault + bool" where
  "is_connected g =
     (if is_empty g then Inr True
      else case vertex_list g of
             [] \<Rightarrow> Inl Empty_Deref
           | first # _ \<Rightarrow>
               (case depth_first g first of
                  Inl e \<Rightarrow> Inl e
                | Inr reached \<Rightarrow> Inr (length reached = num_vertices g)))"

text \<open>
  \<^verbatim>\<open>connected_components\<close> keeps the vector \<open>components\<close> and the set \<open>visited\<close>.
  Both inner loops work on \<^verbatim>\<open>components.back()\<close>, the graph pushed last;
  \<open>on_back f cs\<close> applies \<open>f\<close> to that element.
\<close>

definition on_back :: "('a \<Rightarrow> fault + 'a) \<Rightarrow> 'a list \<Rightarrow> fault + 'a list" where
  "on_back f cs =
     (if cs = [] then Inl Empty_Deref
      else case f (last cs) of Inl e \<Rightarrow> Inl e | Inr c \<Rightarrow> Inr (butlast cs @ [c]))"

definition mark_and_add ::
  "'v weighted_graph list \<times> 'v set \<Rightarrow> 'v \<Rightarrow> fault + 'v weighted_graph list \<times> 'v set" where
  "mark_and_add s v =
     (case on_back (\<lambda>c. Inr (add_vertex c v)) (fst s) of
        Inl e \<Rightarrow> Inl e
      | Inr components \<Rightarrow> Inr (components, insert v (snd s)))"

definition rebuild_edges ::
  "'v weighted_graph \<Rightarrow> 'v weighted_graph list \<Rightarrow> 'v \<Rightarrow> fault + 'v weighted_graph list" where
  "rebuild_edges g components v =
     for_each (\<lambda>cs n. on_back (\<lambda>c. add_edge c v (fst n) (snd n)) cs)
       components (neighbours g v)"

definition component_step ::
  "'v weighted_graph \<Rightarrow> 'v weighted_graph list \<times> 'v set \<Rightarrow> 'v
     \<Rightarrow> fault + 'v weighted_graph list \<times> 'v set" where
  "component_step g s u =
     (if u \<notin> snd s then
        (case depth_first g u of
           Inl e \<Rightarrow> Inl e
         | Inr vertices \<Rightarrow>
             (case for_each mark_and_add (fst s @ [empty_graph], snd s) vertices of
                Inl e \<Rightarrow> Inl e
              | Inr s' \<Rightarrow>
                  (case for_each (rebuild_edges g) (fst s') vertices of
                     Inl e \<Rightarrow> Inl e
                   | Inr components \<Rightarrow> Inr (components, snd s'))))
      else Inr s)"

definition connected_components :: "'v weighted_graph \<Rightarrow> fault + 'v weighted_graph list" where
  "connected_components g =
     (case for_each (component_step g) ([], {}) (vertex_list g) of
        Inl e \<Rightarrow> Inl e
      | Inr s \<Rightarrow> Inr (fst s))"

section \<open>The shortest-path engine\<close>

text \<open>
  \<^verbatim>\<open>min_distance\<close> scans the vertices with the pair of locals \<open>(min_vertex, min)\<close>.
  \<open>min_vertex\<close> is declared without a value; \<open>None\<close> stands for the local that was
  never assigned.
\<close>

definition min_step ::
  "('v \<rightharpoonup> int) \<Rightarrow> 'v set \<Rightarrow> 'v option \<times> int \<Rightarrow> 'v \<Rightarrow> fault + 'v option \<times> int" where
  "min_step dist spt_set s v =
     (if v \<notin> spt_set then
        (case dist v of
           None \<Rightarrow> Inl Out_Of_Range
         | Some d \<Rightarrow> if d \<le> snd s then Inr (Some v, d) else Inr s)
      else Inr s)"

definition min_distance ::
  "'v weighted_graph \<Rightarrow> ('v \<rightharpoonup> int) \<Rightarrow> 'v set \<Rightarrow> fault + 'v option" where
  "min_distance g dist spt_set =
     (case for_each (min_step dist spt_set) (None, INT_MAX) (vertex_list g) of
        Inl e \<Rightarrow> Inl e
      | Inr s \<Rightarrow> Inr (fst s))"

text \<open>\<^verbatim>\<open>std::map::insert\<close> keeps the value of a key that is already present.\<close>

definition map_insert :: "('k \<rightharpoonup> 'a) \<Rightarrow> 'k \<Rightarrow> 'a \<Rightarrow> ('k \<rightharpoonup> 'a)" where
  "map_insert m k a = (case m k of None \<Rightarrow> m(k \<mapsto> a) | Some _ \<Rightarrow> m)"

definition initial_distances :: "'v weighted_graph \<Rightarrow> 'v \<Rightarrow> ('v \<rightharpoonup> int)" where
  "initial_distances g v =
     (let dist = foldl (\<lambda>m x. map_insert m x INT_MAX) Map.empty (vertex_list g)
      in if \<not> is_empty g then dist(v \<mapsto> 0) else dist)"

text \<open>
  The condition of the relaxation step is a chain of \<^verbatim>\<open>&&\<close>: a later operand is
  evaluated only when the earlier ones hold.
\<close>

definition relax ::
  "'v weighted_graph \<Rightarrow> 'v \<Rightarrow> 'v set \<Rightarrow> ('v \<rightharpoonup> int) \<Rightarrow> 'v \<Rightarrow> fault + ('v \<rightharpoonup> int)" where
  "relax g u spt_set dist v =
     (if v \<notin> spt_set \<and> are_adjacent g u v then
        (case dist u of
           None \<Rightarrow> Inl Out_Of_Range
         | Some du \<Rightarrow>
             if du \<noteq> INT_MAX then
               (case get_edge_weight g u v of
                  Inl e \<Rightarrow> Inl e
                | Inr w \<Rightarrow>
                    (case dist v of
                       None \<Rightarrow> Inl Out_Of_Range
                     | Some dv \<Rightarrow>
                         if int_add du w < dv then Inr (dist(v \<mapsto> int_add du w))
                         else Inr dist))
             else Inr dist)
      else Inr dist)"

definition dijkstras_step ::
  "'v weighted_graph \<Rightarrow> ('v \<rightharpoonup> int) \<times> 'v set \<Rightarrow> fault + ('v \<rightharpoonup> int) \<times> 'v set" where
  "dijkstras_step g s =
     (case min_distance g (fst s) (snd s) of
        Inl e \<Rightarrow> Inl e
      | Inr None \<Rightarrow> Inl Uninitialised_Vertex
      | Inr (Some u) \<Rightarrow>
          let spt_set = insert u (snd s)
          in (case for_each (relax g u spt_set) (fst s) (vertex_list g) of
                Inl e \<Rightarrow> Inl e
              | Inr dist \<Rightarrow> Inr (dist, spt_set)))"

text \<open>
  The main loop runs once per vertex and does not use the vertex it iterates over;
  \<open>dijkstras_loop g s vs\<close> is the state after one iteration for each element of \<open>vs\<close>.
\<close>

definition dijkstras_loop ::
  "'v weighted_graph \<Rightarrow> ('v \<rightharpoonup> int) \<times> 'v set \<Rightarrow> 'v list \<Rightarrow> fault + ('v \<rightharpoonup> int) \<times> 'v set" where
  "dijkstras_loop g s vs = for_each (\<lambda>s _. dijkstras_step g s) s vs"

definition dijkstras :: "'v weighted_graph \<Rightarrow> 'v \<Rightarrow> fault + ('v \<rightharpoonup> int)" where
  "dijkstras g v =
     (case dijkstras_loop g (initial_distances g v, {}) (vertex_list g) of
        Inl e \<Rightarrow> Inl e
      | Inr s \<Rightarrow> Inr (fst s))"

section \<open>The articulation point detector\<close>

text \<open>
  The loop keeps the local \<open>test_graph\<close> and the result vector. Each iteration
  assigns a copy of \<open>g\<close> to \<open>test_graph\<close> and removes the vertex from that copy.
\<close>

definition articulation_step ::
  "'v weighted_graph \<Rightarrow> 'v weighted_graph \<times> 'v list \<Rightarrow> 'v
     \<Rightarrow> fault + 'v weighted_graph \<times> 'v list" where
  "articulation_step g s v =
     (let test_graph = g;
          test_graph = remove_vertex test_graph v
      in case is_connected test_graph of
           Inl e \<Rightarrow> Inl e
         | Inr connected \<Rightarrow>
             Inr (test_graph, if \<not> connected then snd s @ [v] else snd s))"

definition articulation_points :: "'v weighted_graph \<Rightarrow> fault + 'v list" where
  "articulation_points g =
     (case for_each (articulation_step g) (empty_graph, []) (vertex_list g) of
        Inl e \<Rightarrow> Inl e
      | Inr s \<Rightarrow> Inr (snd s))"

section \<open>Calls on a store of graph objects\<close>

text \<open>
  The functions above take the graph by \<^verbatim>\<open>const\<close> reference. To state what a call
  does to the graph objects that exist while it runs, the objects are kept in a store:
  the caller's graph, the local \<open>test_graph\<close> of \<^verbatim>\<open>articulation_points\<close>, and the
  elements of the vector \<open>components\<close> of \<^verbatim>\<open>connected_components\<close>. A call takes the
  store and returns its result together with the store it leaves.
\<close>

datatype ref = Caller_Graph | Test_Graph | Component nat

type_synonym 'v store = "ref \<Rightarrow> 'v weighted_graph"

text \<open>
  \<^verbatim>\<open>is_empty\<close>, \<^verbatim>\<open>is_connected\<close> and \<^verbatim>\<open>dijkstras\<close> only call accessors of the
  graph they are given and construct no other graph.
\<close>

definition is_empty_on :: "'v store \<Rightarrow> bool \<times> 'v store" where
  "is_empty_on \<sigma> = (is_empty (\<sigma> Caller_Graph), \<sigma>)"

definition is_connected_on :: "'v store \<Rightarrow> fault + bool \<times> 'v store" where
  "is_connected_on \<sigma> =
     (case is_connected (\<sigma> Caller_Graph) of Inl e \<Rightarrow> Inl e | Inr b \<Rightarrow> Inr (b, \<sigma>))"

definition dijkstras_on :: "'v store \<Rightarrow> 'v \<Rightarrow> fault + ('v \<rightharpoonup> int) \<times> 'v store" where
  "dijkstras_on \<sigma> v =
     (case dijkstras (\<sigma> Caller_Graph) v of Inl e \<Rightarrow> Inl e | Inr dist \<Rightarrow> Inr (dist, \<sigma>))"

text \<open>
  \<^verbatim>\<open>articulation_points\<close>: the local \<open>test_graph\<close> is default-constructed, then each
  iteration copy-assigns the caller's graph to it and removes the vertex from it.
\<close>

definition articulation_step_on ::
  "'v store \<times> 'v list \<Rightarrow> 'v \<Rightarrow> fault + 'v store \<times> 'v list" where
  "articulation_step_on s v =
     (let \<sigma> = fst s;
          \<sigma> = \<sigma>(Test_Graph := \<sigma> Caller_Graph);
          \<sigma> = \<sigma>(Test_Graph := remove_vertex (\<sigma> Test_Graph) v)
      in case is_connected (\<sigma> Test_Graph) of
           Inl e \<Rightarrow> Inl e
         | Inr still_connected \<Rightarrow>
             Inr (\<sigma>, if \<not> still_connected then snd s @ [v] else snd s))"

definition articulation_points_on :: "'v store \<Rightarrow> fault + 'v list \<times> 'v store" where
  "articulation_points_on \<sigma> =
     (let \<sigma> = \<sigma>(Test_Graph := empty_graph)
      in case for_each articulation_step_on (\<sigma>, []) (vertex_list (\<sigma> Caller_Graph)) of
           Inl e \<Rightarrow> Inl e
         | Inr s \<Rightarrow> Inr (snd s, fst s))"

text \<open>
  \<^verbatim>\<open>connected_components\<close>: \<open>n\<close> is the size of the vector, \<open>Component i\<close> its
  element \<open>i\<close>, and \<^verbatim>\<open>components.back()\<close> the element \<open>n - 1\<close> of a vector that
  is not empty. The vector is returned by value.
\<close>

definition on_back_of ::
  "nat \<Rightarrow> ('v weighted_graph \<Rightarrow> fault + 'v weighted_graph) \<Rightarrow> 'v store \<Rightarrow> fault + 'v store" where
  "on_back_of n f \<sigma> =
     (if n = 0 then Inl Empty_Deref
      else case f (\<sigma> (Component (n - 1))) of
             Inl e \<Rightarrow> Inl e
           | Inr c \<Rightarrow> Inr (\<sigma>(Component (n - 1) := c)))"

definition mark_and_add_on ::
  "'v store \<times> nat \<times> 'v set \<Rightarrow> 'v \<Rightarrow> fault + 'v store \<times> nat \<times> 'v set" where
  "mark_and_add_on s v =
     (case on_back_of (fst (snd s)) (\<lambda>c. Inr (add_vertex c v)) (fst s) of
        Inl e \<Rightarrow> Inl e
      | Inr \<sigma> \<Rightarrow> Inr (\<sigma>, fst (snd s), insert v (snd (snd s))))"

definition add_edge_on ::
  "nat \<Rightarrow> 'v \<Rightarrow> 'v store \<Rightarrow> 'v \<times> int \<Rightarrow> fault + 'v store" where
  "add_edge_on n v \<sigma> e = on_back_of n (\<lambda>c. add_edge c v (fst e) (snd e)) \<sigma>"

definition rebuild_edges_on :: "nat \<Rightarrow> 'v store \<Rightarrow> 'v \<Rightarrow> fault + 'v store" where
  "rebuild_edges_on n \<sigma> v = for_each (add_edge_on n v) \<sigma> (neighbours (\<sigma> Caller_Graph) v)"

definition component_step_on ::
  "'v store \<times> nat \<times> 'v set \<Rightarrow> 'v \<Rightarrow> fault + 'v store \<times> nat \<times> 'v set" where
  "component_step_on s u =
     (let \<sigma> = fst s; n = fst (snd s); visited = snd (snd s)
      in if u \<notin> visited then
           (case depth_first (\<sigma> Caller_Graph) u of
              Inl e \<Rightarrow> Inl e
            | Inr vertices \<Rightarrow>
                (case for_each mark_and_add_on
                        (\<sigma>(Component n := empty_graph), Suc n, visited) vertices of
                   Inl e \<Rightarrow> Inl e
                 | Inr s' \<Rightarrow>
                     (case for_each (rebuild_edges_on (fst (snd s'))) (fst s') vertices of
                        Inl e \<Rightarrow> Inl e
                      | Inr \<sigma>' \<Rightarrow> Inr (\<sigma>', snd s'))))
         else Inr s)"

definition connected_components_on ::
  "'v store \<Rightarrow> fault + 'v weighted_graph list \<times> 'v store" where
  "connected_components_on \<sigma> =
     (case for_each component_step_on (\<sigma>, 0, {}) (vertex_list (\<sigma> Caller_Graph)) of
        Inl e \<Rightarrow> Inl e
      | Inr s \<Rightarrow> Inr (map (\<lambda>i. fst s (Component i)) [0..<fst (snd s)], fst s))"

text \<open>The store that holds the graph \<open>g\<close> as the caller's graph and nothing else.\<close>

definition store_of :: "'v weighted_graph \<Rightarrow> 'v store" where
  "store_of g = (\<lambda>r. empty_graph)(Caller_Graph := g)"

section \<open>Notions used to state the properties\<close>

subsection \<open>Example graphs\<close>

text \<open>
  \<open>graph_of vs es\<close> is the graph with the vertices \<open>vs\<close> and one undirected edge
  for each triple of \<open>es\<close>. The graphs below are the scenarios of the specification
  and the inputs at which the theorems are instantiated.
\<close>

definition graph_of :: "'v list \<Rightarrow> ('v \<times> 'v \<times> int) list \<Rightarrow> 'v weighted_graph" where
  "graph_of vs es =
     \<lparr>vertex_list = vs,
      edge_list = concat (map (\<lambda>e. [((fst e, fst (snd e)), snd (snd e)),
                                     ((fst (snd e), fst e), snd (snd e))]) es)\<rparr>"

definition triangle :: "string weighted_graph" where
  "triangle = graph_of [''A'', ''B'', ''C''] [(''A'', ''B'', 1), (''B'', ''C'', 2), (''A'', ''C'', 4)]"

definition path_graph :: "string weighted_graph" where
  "path_graph = graph_of [''A'', ''B'', ''C''] [(''A'', ''B'', 1), (''B'', ''C'', 1)]"

definition two_triangles :: "nat weighted_graph" where
  "two_triangles = graph_of [1, 2, 3, 4, 5, 6]
     [(1, 2, 1), (2, 3, 1), (1, 3, 1), (4, 5, 1), (5, 6, 1), (4, 6, 1)]"

definition pair_graph :: "string weighted_graph" where
  "pair_graph = graph_of [''A'', ''B''] [(''A'', ''B'', 1)]"

definition fork :: "nat weighted_graph" where
  "fork = graph_of [1, 2, 3] [(1, 2, 1), (1, 3, 1)]"

definition far_graph :: "nat weighted_graph" where
  "far_graph = graph_of [1, 2, 3] [(1, 2, 2147483647), (2, 3, 1)]"

definition heavy_edge :: "nat weighted_graph" where
  "heavy_edge = graph_of [1, 2] [(1, 2, 1073741824)]"

definition longest_edge :: "nat weighted_graph" where
  "longest_edge = graph_of [1, 2] [(1, 2, 2147483647)]"

subsection \<open>Reachability\<close>

text \<open>
  \<open>adjacency g\<close> is the edge relation that the traversal follows: neighbour
  enumeration only yields vertices of the graph. \<open>connected g\<close> says that every
  vertex reaches every other one.
\<close>

definition adjacency :: "'v weighted_graph \<Rightarrow> ('v \<times> 'v) set" where
  "adjacency g = {(u, v). v \<in> set (vertex_list g) \<and> edge_map g u v \<noteq> None}"

definition reachable :: "'v weighted_graph \<Rightarrow> 'v \<Rightarrow> 'v set" where
  "reachable g s = (adjacency g)\<^sup>* `` {s}"

definition connected :: "'v weighted_graph \<Rightarrow> bool" where
  "connected g \<longleftrightarrow>
     (\<forall>a \<in> set (vertex_list g). \<forall>b \<in> set (vertex_list g). b \<in> reachable g a)"

subsection \<open>Building a component\<close>

text \<open>
  \<open>extends c c'\<close>: \<open>c'\<close> has the vertices of \<open>c\<close> and at least its edges.
  \<open>covers g c\<close>: every edge of \<open>g\<close> that starts at a vertex of \<open>c\<close> is an edge
  of \<open>c\<close>. \<open>components_inv g ps cs vis\<close> is the invariant of the outer loop of
  \<^verbatim>\<open>connected_components\<close> after the vertices \<open>ps\<close>.
\<close>

definition extends :: "'v weighted_graph \<Rightarrow> 'v weighted_graph \<Rightarrow> bool" where
  "extends c c' \<longleftrightarrow>
     vertex_list c' = vertex_list c \<and> (\<forall>a b. edge_map c a b \<noteq> None \<longrightarrow> edge_map c' a b \<noteq> None)"

definition covers :: "'v weighted_graph \<Rightarrow> 'v weighted_graph \<Rightarrow> bool" where
  "covers g c \<longleftrightarrow>
     (\<forall>a \<in> set (vertex_list c). \<forall>b \<in> set (vertex_list g).
        edge_map g a b \<noteq> None \<longrightarrow> edge_map c a b \<noteq> None)"

definition components_inv ::
  "'v weighted_graph \<Rightarrow> 'v list \<Rightarrow> 'v weighted_graph list \<Rightarrow> 'v set \<Rightarrow> bool" where
  "components_inv g ps cs vis \<longleftrightarrow>
     vis = (\<Union>c \<in> set cs. set (vertex_list c)) \<and>
     set ps \<subseteq> vis \<and>
     (\<forall>c \<in> set cs. \<exists>u \<in> set ps. vertex_list c = traverse g [u] [] \<and> covers g c) \<and>
     (\<forall>i j. i < j \<and> j < length cs \<longrightarrow>
        set (vertex_list (cs ! i)) \<inter> set (vertex_list (cs ! j)) = {}) \<and>
     (case ps of [] \<Rightarrow> cs = []
      | first # _ \<Rightarrow> cs \<noteq> [] \<and> vertex_list (hd cs) = traverse g [first] [])"

subsection \<open>Paths and their weights\<close>

text \<open>
  A path is a non-empty list of vertices of the graph in which consecutive vertices are
  joined by an edge; its weight is the sum of the weights of these edges.
  \<open>walk g s t d\<close> is the same notion by induction on the last edge: there is a path
  from \<open>s\<close> to \<open>t\<close> of weight \<open>d\<close>.
\<close>

fun is_path :: "'v weighted_graph \<Rightarrow> 'v list \<Rightarrow> bool" where
  "is_path g [] \<longleftrightarrow> False"
| "is_path g [v] \<longleftrightarrow> v \<in> set (vertex_list g)"
| "is_path g (u # v # p) \<longleftrightarrow>
     u \<in> set (vertex_list g) \<and> edge_map g u v \<noteq> None \<and> is_path g (v # p)"

fun path_weight :: "'v weighted_graph \<Rightarrow> 'v list \<Rightarrow> int" where
  "path_weight g (u # v # p) = the (edge_map g u v) + path_weight g (v # p)"
| "path_weight g p = 0"

definition path_between :: "'v weighted_graph \<Rightarrow> 'v \<Rightarrow> 'v list \<Rightarrow> 'v \<Rightarrow> bool" where
  "path_between g s p t \<longleftrightarrow> is_path g p \<and> hd p = s \<and> last p = t"

definition shortest_path :: "'v weighted_graph \<Rightarrow> 'v \<Rightarrow> 'v list \<Rightarrow> 'v \<Rightarrow> bool" where
  "shortest_path g s p t \<longleftrightarrow>
     path_between g s p t \<and> (\<forall>q. path_between g s q t \<longrightarrow> path_weight g p \<le> path_weight g q)"

definition nonneg_weights :: "'v weighted_graph \<Rightarrow> bool" where
  "nonneg_weights g \<longleftrightarrow> (\<forall>e \<in> set (edge_list g). 0 \<le> snd e)"

inductive walk :: "'v weighted_graph \<Rightarrow> 'v \<Rightarrow> 'v \<Rightarrow> int \<Rightarrow> bool" for g s where
  walk_start: "s \<in> set (vertex_list g) \<Longrightarrow> walk g s s 0"
| walk_step: "walk g s u d \<Longrightarrow> edge_map g u v = Some w \<Longrightarrow> walk g s v (d + w)"

definition is_distance :: "'v weighted_graph \<Rightarrow> 'v \<Rightarrow> 'v \<Rightarrow> int \<Rightarrow> bool" where
  "is_distance g s t d \<longleftrightarrow> walk g s t d \<and> (\<forall>d'. walk g s t d' \<longrightarrow> d \<le> d')"

text \<open>
  The distances fit the type \<^verbatim>\<open>int\<close>. Every shortest path from the source weighs at
  most \<open>INT_MAX\<close>, and so does every sum that the relaxation step forms: the step adds
  the weight of an edge \<open>u\<close>--\<open>v\<close> to the distance of \<open>u\<close> when \<open>u\<close> has been selected
  with a distance other than the sentinel and \<open>v\<close> is another vertex that has not been
  selected yet, and such a \<open>v\<close> is not nearer to the source than \<open>u\<close>.
  \<open>walks_in_range\<close> is the same condition on walks.
\<close>

definition sums_in_range :: "'v weighted_graph \<Rightarrow> 'v \<Rightarrow> bool" where
  "sums_in_range g s \<longleftrightarrow>
     (\<forall>p t. shortest_path g s p t \<longrightarrow> path_weight g p \<le> INT_MAX) \<and>
     (\<forall>p q u v w.
        shortest_path g s p u \<and> shortest_path g s q v \<and> u \<noteq> v \<and> edge_map g u v = Some w \<and>
        path_weight g p < INT_MAX \<and> path_weight g p \<le> path_weight g q
        \<longrightarrow> path_weight g p + w \<le> INT_MAX)"

definition walks_in_range :: "'v weighted_graph \<Rightarrow> 'v \<Rightarrow> bool" where
  "walks_in_range g s \<longleftrightarrow>
     (\<forall>t d. is_distance g s t d \<longrightarrow> d \<le> INT_MAX) \<and>
     (\<forall>u v w du dv.
        is_distance g s u du \<and> is_distance g s v dv \<and> u \<noteq> v \<and> edge_map g u v = Some w \<and>
        du < INT_MAX \<and> du \<le> dv
        \<longrightarrow> du + w \<le> INT_MAX)"

subsection \<open>The loops of \<^verbatim>\<open>dijkstras\<close>\<close>

text \<open>
  \<open>unprocessed vs spt_set\<close> are the vertices not yet in the shortest-path-tree set, in
  enumeration order; \<open>minimal_unprocessed\<close> are those of least distance among them.
  \<open>relaxed g u spt_set vs dist\<close> is the distance map after the relaxation loop has run
  over \<open>vs\<close> for the selected vertex \<open>u\<close>. \<open>loop_state g s i\<close> is the state of
  \<^verbatim>\<open>dijkstras\<close> after \<open>i\<close> iterations of its main loop.
\<close>

definition unprocessed :: "'v list \<Rightarrow> 'v set \<Rightarrow> 'v list" where
  "unprocessed vs spt_set = filter (\<lambda>v. v \<notin> spt_set) vs"

definition least_distance :: "('v \<rightharpoonup> int) \<Rightarrow> 'v list \<Rightarrow> int" where
  "least_distance dist vs = foldr (\<lambda>v m. min (the (dist v)) m) vs INT_MAX"

definition minimal_unprocessed :: "('v \<rightharpoonup> int) \<Rightarrow> 'v list \<Rightarrow> 'v set \<Rightarrow> 'v list" where
  "minimal_unprocessed dist vs spt_set =
     filter (\<lambda>v. the (dist v) = least_distance dist (unprocessed vs spt_set))
       (unprocessed vs spt_set)"

definition bounded_on :: "('v \<rightharpoonup> int) \<Rightarrow> 'v list \<Rightarrow> bool" where
  "bounded_on dist vs \<longleftrightarrow> (\<forall>v \<in> set vs. \<exists>d. dist v = Some d \<and> d \<le> INT_MAX)"

definition selected :: "'v weighted_graph \<Rightarrow> ('v \<rightharpoonup> int) \<Rightarrow> 'v set \<Rightarrow> 'v" where
  "selected g dist spt_set = last (minimal_unprocessed dist (vertex_list g) spt_set)"

definition relaxed ::
  "'v weighted_graph \<Rightarrow> 'v \<Rightarrow> 'v set \<Rightarrow> 'v list \<Rightarrow> ('v \<rightharpoonup> int) \<Rightarrow> ('v \<rightharpoonup> int)" where
  "relaxed g u spt_set vs dist =
     (\<lambda>v. if v \<in> set vs \<and> v \<notin> spt_set \<and> the (dist u) \<noteq> INT_MAX \<and>
             (\<exists>w. edge_map g u v = Some w \<and> int_add (the (dist u)) w < the (dist v))
          then Some (int_add (the (dist u)) (the (edge_map g u v)))
          else dist v)"

definition loop_state :: "'v weighted_graph \<Rightarrow> 'v \<Rightarrow> nat \<Rightarrow> fault + ('v \<rightharpoonup> int) \<times> 'v set" where
  "loop_state g s i = dijkstras_loop g (initial_distances g s, {}) (take i (vertex_list g))"

definition dijkstra_inv ::
  "'v weighted_graph \<Rightarrow> 'v \<Rightarrow> ('v \<rightharpoonup> int) \<Rightarrow> 'v set \<Rightarrow> bool" where
  "dijkstra_inv g s dist S \<longleftrightarrow>
     bounded_on dist (vertex_list g) \<and> S \<subseteq> set (vertex_list g) \<and>
     (\<forall>v \<in> S. (\<exists>d. walk g s v d) \<longrightarrow> is_distance g s v (the (dist v))) \<and>
     (\<forall>v \<in> set (vertex_list g). the (dist v) = INT_MAX \<or> walk g s v (the (dist v))) \<and>
     (\<forall>u \<in> S. \<forall>v \<in> set (vertex_list g) - S. \<forall>w.
        edge_map g u v = Some w \<and> (\<exists>d. walk g s u d) \<longrightarrow> the (dist v) \<le> the (dist u) + w) \<and>
     (if S = {} then dist = initial_distances g s else s \<in> S)"

subsection \<open>The store and the functional model\<close>

text \<open>
  \<open>store_rel \<sigma>0 cs \<sigma> n\<close> relates the vector \<open>cs\<close> of the functional model to the
  store \<open>\<sigma>\<close> that a call started in \<open>\<sigma>0\<close> has reached: the \<open>n\<close> components are
  the elements of \<open>cs\<close>, and every other object is as it was in \<open>\<sigma>0\<close>.
  \<open>vector_rel\<close> and \<open>loop_rel\<close> are this relation on the states of the inner loops
  and of the outer loop.
\<close>

definition is_component :: "ref \<Rightarrow> bool" where
  "is_component r = (case r of Component _ \<Rightarrow> True | _ \<Rightarrow> False)"

definition store_rel ::
  "'v store \<Rightarrow> 'v weighted_graph list \<Rightarrow> 'v store \<Rightarrow> nat \<Rightarrow> bool" where
  "store_rel \<sigma>0 cs \<sigma> n \<longleftrightarrow>
     n = length cs \<and> (\<forall>i < n. \<sigma> (Component i) = cs ! i) \<and>
     (\<forall>r. \<not> is_component r \<longrightarrow> \<sigma> r = \<sigma>0 r)"

definition vector_rel ::
  "'v store \<Rightarrow> nat \<Rightarrow> 'v weighted_graph list \<Rightarrow> 'v store \<Rightarrow> bool" where
  "vector_rel \<sigma>0 n cs \<sigma> \<longleftrightarrow> store_rel \<sigma>0 cs \<sigma> n"

definition loop_rel ::
  "'v store \<Rightarrow> 'v weighted_graph list \<times> 'v set \<Rightarrow> 'v store \<times> nat \<times> 'v set \<Rightarrow> bool" where
  "loop_rel \<sigma>0 s t \<longleftrightarrow> store_rel \<sigma>0 (fst s) (fst t) (fst (snd t)) \<and> snd (snd t) = snd s"

section \<open>Proofs\<close>

subsection \<open>The scenarios of the specification\<close>

text \<open>
  The triangle with the edges A--B of weight 1, B--C of weight 2 and A--C of weight 4;
  the path A--B--C; two disjoint triangles.
\<close>

lemma scenario_triangle:
  "map_sum id (\<lambda>dist. map dist [''A'', ''B'', ''C'']) (dijkstras triangle ''A'') =
     Inr [Some 0, Some 1, Some 3]"
  by code_simp

lemma scenario_path_graph: "articulation_points path_graph = Inr [''B'']"
  by code_simp

lemma scenario_two_triangles:
  "map_sum id (map (\<lambda>c. (vertex_list c, length (edge_list c) div 2)))
     (connected_components two_triangles) = Inr [([1, 2, 3], 3), ([4, 5, 6], 3)]"
  by code_simp

subsection \<open>Fallible loops\<close>

lemma for_each_append:
  "for_each body s (xs @ ys) =
     (case for_each body s xs of Inl e \<Rightarrow> Inl e | Inr s' \<Rightarrow> for_each body s' ys)"
  by (induction xs arbitrary: s) (auto split: sum.splits)

lemma for_each_snoc:
  "for_each body s (xs @ [x]) =
     (case for_each body s xs of Inl e \<Rightarrow> Inl e | Inr s' \<Rightarrow> body s' x)"
  by (simp add: for_each_append split: sum.splits)

lemma for_each_sim:
  assumes "R s t"
    and "\<And>s t x. R s t \<Longrightarrow> x \<in> set xs \<Longrightarrow> rel_sum (=) R (f s x) (f' t x)"
  shows "rel_sum (=) R (for_each f s xs) (for_each f' t xs)"
  using assms
proof (induction xs arbitrary: s t)
  case Nil
  then show ?case by simp
next
  case (Cons x xs)
  have step: "rel_sum (=) R (f s x) (f' t x)"
    using Cons.prems by simp
  show ?case
  proof (cases "f s x")
    case (Inl e)
    with step show ?thesis
      by (cases "f' t x") simp_all
  next
    case (Inr s')
    with step obtain t' where t': "f' t x = Inr t'" "R s' t'"
      by (cases "f' t x") simp_all
    have "rel_sum (=) R (for_each f s' xs) (for_each f' t' xs)"
      using t'(2) Cons.prems(2) by (intro Cons.IH) simp_all
    with Inr t'(1) show ?thesis by simp
  qed
qed

subsection \<open>The graph container\<close>

lemma edge_map_in_list: "edge_map g u v = Some w \<Longrightarrow> ((u, v), w) \<in> set (edge_list g)"
  by (simp add: edge_map_def map_of_SomeD)

lemma wf_edge_vertices:
  assumes "wf_graph g" and "edge_map g u v = Some w"
  shows "u \<in> set (vertex_list g)" and "v \<in> set (vertex_list g)"
  using assms(1) edge_map_in_list [OF assms(2)] by (auto simp: wf_graph_def)

lemma wf_edge_sym:
  assumes "wf_graph g" and "edge_map g u v = Some w"
  shows "edge_map g v u = Some w"
  using assms wf_edge_vertices [OF assms] by (auto simp: wf_graph_def)

lemma nonneg_edge:
  assumes "nonneg_weights g" and "edge_map g u v = Some w"
  shows "0 \<le> w"
  using assms(1) edge_map_in_list [OF assms(2)] by (force simp: nonneg_weights_def)

lemma set_neighbours: "set (neighbours g u) = {(v, w). v \<in> set (vertex_list g) \<and> edge_map g u v = Some w}"
  by (auto simp: neighbours_def are_adjacent_def)

lemma neighbours_adjacency: "fst ` set (neighbours g u) = adjacency g `` {u}"
  by (force simp: set_neighbours adjacency_def)

lemma extends_refl: "extends c c"
  by (simp add: extends_def)

lemma extends_trans: "extends a b \<Longrightarrow> extends b c \<Longrightarrow> extends a c"
  by (simp add: extends_def)

lemma edge_map_add_edge:
  "edge_map (c\<lparr>edge_list := AList.update (v, u) w (AList.update (u, v) w (edge_list c))\<rparr>) a b =
     (if a = v \<and> b = u then Some w else if a = u \<and> b = v then Some w else edge_map c a b)"
proof -
  have "edge_list (c\<lparr>edge_list := E\<rparr>) = E" for E
    by simp
  then show ?thesis
    unfolding edge_map_def by (simp only: update_conv' fun_upd_apply prod.inject)
qed

lemma add_edge_result:
  assumes "u \<in> set (vertex_list c)" and "v \<in> set (vertex_list c)"
  shows "\<exists>c'. add_edge c u v w = Inr c' \<and> extends c c' \<and> edge_map c' u v \<noteq> None"
proof -
  let ?c = "c\<lparr>edge_list := AList.update (v, u) w (AList.update (u, v) w (edge_list c))\<rparr>"
  have "add_edge c u v w = Inr ?c"
    using assms by (simp add: add_edge_def)
  moreover have "extends c ?c"
    unfolding extends_def by (simp add: edge_map_add_edge)
  moreover have "edge_map ?c u v \<noteq> None"
    by (simp add: edge_map_add_edge)
  ultimately show ?thesis by blast
qed

lemma map_of_filter_key:
  "map_of (filter (\<lambda>e. P (fst e)) el) k = (if P k then map_of el k else None)"
  by (induction el) auto

lemma edge_map_remove_vertex:
  "edge_map (remove_vertex g v) a b = (if a \<noteq> v \<and> b \<noteq> v then edge_map g a b else None)"
proof -
  have "edge_list (remove_vertex g v) =
      filter (\<lambda>e. (\<lambda>k. fst k \<noteq> v \<and> snd k \<noteq> v) (fst e)) (edge_list g)"
    by (simp add: remove_vertex_def)
  then show ?thesis
    unfolding edge_map_def
    using map_of_filter_key [of "\<lambda>k. fst k \<noteq> v \<and> snd k \<noteq> v" "edge_list g" "(a, b)"]
    by simp
qed

lemma wf_remove_vertex:
  assumes "wf_graph g"
  shows "wf_graph (remove_vertex g v)"
proof -
  have V: "vertex_list (remove_vertex g v) = removeAll v (vertex_list g)"
    and E: "set (edge_list (remove_vertex g v)) \<subseteq> set (edge_list g)"
    and E': "\<forall>e \<in> set (edge_list (remove_vertex g v)). fst (fst e) \<noteq> v \<and> snd (fst e) \<noteq> v"
    by (auto simp: remove_vertex_def)
  have "distinct (vertex_list (remove_vertex g v))"
    using assms by (simp add: V wf_graph_def distinct_removeAll)
  moreover have "\<forall>e \<in> set (edge_list (remove_vertex g v)).
        fst (fst e) \<in> set (vertex_list (remove_vertex g v)) \<and>
        snd (fst e) \<in> set (vertex_list (remove_vertex g v)) \<and>
        INT_MIN \<le> snd e \<and> snd e \<le> INT_MAX"
    using assms E E' unfolding V wf_graph_def by auto
  moreover have "\<forall>a \<in> set (vertex_list (remove_vertex g v)).
      \<forall>b \<in> set (vertex_list (remove_vertex g v)).
        edge_map (remove_vertex g v) a b = edge_map (remove_vertex g v) b a"
    using assms unfolding V wf_graph_def by (simp add: edge_map_remove_vertex)
  ultimately show ?thesis
    unfolding wf_graph_def by blast
qed

subsection \<open>The traversal\<close>

lemma traverse_mono: "set seen \<subseteq> set (traverse g stack seen)"
  by (induction g stack seen rule: traverse.induct) (auto simp: traverse.simps)

lemma traverse_distinct: "distinct seen \<Longrightarrow> distinct (traverse g stack seen)"
  by (induction g stack seen rule: traverse.induct) (auto simp: traverse.simps)

lemma traverse_unfold_skip:
  "x \<in> set seen \<or> x \<notin> set (vertex_list g) \<Longrightarrow>
     traverse g (x # stack) seen = traverse g stack seen"
  by (simp add: traverse.simps)

lemma traverse_unfold_visit:
  "\<not> (x \<in> set seen \<or> x \<notin> set (vertex_list g)) \<Longrightarrow>
     traverse g (x # stack) seen = traverse g (map fst (neighbours g x) @ stack) (seen @ [x])"
  by (simp add: traverse.simps)

lemma traverse_sound:
  "set (traverse g stack seen) \<subseteq>
     set seen \<union> (adjacency g)\<^sup>* `` (set stack \<inter> set (vertex_list g))"
proof (induction g stack seen rule: traverse.induct)
  case (1 g seen)
  then show ?case by (simp add: traverse.simps)
next
  case (2 g x stack seen)
  let ?A = "(adjacency g)\<^sup>*"
  show ?case
  proof (cases "x \<in> set seen \<or> x \<notin> set (vertex_list g)")
    case True
    have "set (traverse g stack seen) \<subseteq> set seen \<union> ?A `` (set stack \<inter> set (vertex_list g))"
      using True by (rule 2(1))
    also have "\<dots> \<subseteq> set seen \<union> ?A `` (set (x # stack) \<inter> set (vertex_list g))"
      by auto
    finally show ?thesis
      by (simp only: traverse_unfold_skip [OF True])
  next
    case False
    then have xV: "x \<in> set (vertex_list g)" by simp
    have IH: "set (traverse g (map fst (neighbours g x) @ stack) (seen @ [x])) \<subseteq>
        set (seen @ [x]) \<union> ?A `` (set (map fst (neighbours g x) @ stack) \<inter> set (vertex_list g))"
      using False by (rule 2(2))
    have "t \<in> set seen \<union> ?A `` (set (x # stack) \<inter> set (vertex_list g))"
      if t: "t \<in> set (seen @ [x]) \<union>
                ?A `` (set (map fst (neighbours g x) @ stack) \<inter> set (vertex_list g))" for t
    proof -
      consider "t \<in> set seen" | "t = x"
        | y where "y \<in> set (map fst (neighbours g x))" "(y, t) \<in> ?A"
        | y where "y \<in> set stack" "y \<in> set (vertex_list g)" "(y, t) \<in> ?A"
        using t by auto
      then show ?thesis
      proof cases
        case 1
        then show ?thesis by simp
      next
        case 2
        with xV have "x \<in> set (x # stack) \<inter> set (vertex_list g)" "(x, t) \<in> ?A"
          by simp_all
        then show ?thesis by blast
      next
        case 3
        then have "(x, y) \<in> adjacency g"
          using neighbours_adjacency [of g x] by simp
        then have "(x, t) \<in> ?A"
          using 3(2) by (rule converse_rtrancl_into_rtrancl)
        moreover have "x \<in> set (x # stack) \<inter> set (vertex_list g)"
          using xV by simp
        ultimately show ?thesis by blast
      next
        case 4
        then have "y \<in> set (x # stack) \<inter> set (vertex_list g)" by simp
        with 4(3) show ?thesis by blast
      qed
    qed
    with IH have "set (traverse g (map fst (neighbours g x) @ stack) (seen @ [x])) \<subseteq>
        set seen \<union> ?A `` (set (x # stack) \<inter> set (vertex_list g))"
      by blast
    then show ?thesis
      by (simp only: traverse_unfold_visit [OF False])
  qed
qed

lemma traverse_closed:
  assumes "\<forall>x \<in> set seen. adjacency g `` {x} \<subseteq> set seen \<union> set stack"
  shows "adjacency g `` set (traverse g stack seen) \<subseteq> set (traverse g stack seen) \<and>
         set stack \<inter> set (vertex_list g) \<subseteq> set (traverse g stack seen)"
  using assms
proof (induction g stack seen rule: traverse.induct)
  case (1 g seen)
  then show ?case by (auto simp: traverse.simps)
next
  case (2 g x stack seen)
  show ?case
  proof (cases "x \<in> set seen \<or> x \<notin> set (vertex_list g)")
    case True
    let ?R = "set (traverse g stack seen)"
    have "\<forall>y \<in> set seen. adjacency g `` {y} \<subseteq> set seen \<union> set stack"
    proof
      fix y assume y: "y \<in> set seen"
      show "adjacency g `` {y} \<subseteq> set seen \<union> set stack"
      proof
        fix z assume z: "z \<in> adjacency g `` {y}"
        then have "z \<in> set (vertex_list g)" by (simp add: adjacency_def)
        moreover have "z \<in> set seen \<union> set (x # stack)"
          using 2(3) y z by blast
        ultimately show "z \<in> set seen \<union> set stack"
          using True by auto
      qed
    qed
    then have IH: "adjacency g `` ?R \<subseteq> ?R" "set stack \<inter> set (vertex_list g) \<subseteq> ?R"
      using 2(1) [OF True] by simp_all
    have "set seen \<subseteq> ?R"
      by (rule traverse_mono)
    with True IH(2) have "set (x # stack) \<inter> set (vertex_list g) \<subseteq> ?R"
      by auto
    with IH(1) show ?thesis
      by (simp only: traverse_unfold_skip [OF True])
  next
    case False
    let ?R = "set (traverse g (map fst (neighbours g x) @ stack) (seen @ [x]))"
    have "\<forall>y \<in> set (seen @ [x]).
        adjacency g `` {y} \<subseteq> set (seen @ [x]) \<union> set (map fst (neighbours g x) @ stack)"
    proof
      fix y assume y: "y \<in> set (seen @ [x])"
      show "adjacency g `` {y} \<subseteq> set (seen @ [x]) \<union> set (map fst (neighbours g x) @ stack)"
      proof (cases "y = x")
        case True
        then show ?thesis
          using neighbours_adjacency [of g x] by auto
      next
        case False
        with y have "y \<in> set seen" by simp
        with 2(3) have "adjacency g `` {y} \<subseteq> set seen \<union> set (x # stack)"
          by blast
        then show ?thesis by auto
      qed
    qed
    then have IH: "adjacency g `` ?R \<subseteq> ?R"
      "set (map fst (neighbours g x) @ stack) \<inter> set (vertex_list g) \<subseteq> ?R"
      using 2(2) [OF False] by simp_all
    have "set (seen @ [x]) \<subseteq> ?R"
      by (rule traverse_mono)
    with IH(2) have "set (x # stack) \<inter> set (vertex_list g) \<subseteq> ?R"
      by auto
    with IH(1) show ?thesis
      by (simp only: traverse_unfold_visit [OF False])
  qed
qed

lemma traverse_reachable:
  assumes "s \<in> set (vertex_list g)"
  shows "set (traverse g [s] []) = reachable g s"
proof
  show "set (traverse g [s] []) \<subseteq> reachable g s"
    using traverse_sound [of g "[s]" "[]"] assms by (auto simp: reachable_def)
next
  let ?R = "set (traverse g [s] [])"
  have closed: "adjacency g `` ?R \<subseteq> ?R" and s: "s \<in> ?R"
    using traverse_closed [of "[]" g "[s]"] assms by auto
  have "t \<in> ?R" if "(s, t) \<in> (adjacency g)\<^sup>*" for t
    using that
  proof (induction rule: rtrancl_induct)
    case base
    show ?case by (rule s)
  next
    case (step y z)
    with closed show ?case by blast
  qed
  then show "reachable g s \<subseteq> ?R"
    by (auto simp: reachable_def)
qed

lemma depth_first_result:
  assumes "s \<in> set (vertex_list g)"
  shows "depth_first g s = Inr (traverse g [s] [])"
    and "distinct (traverse g [s] [])"
    and "set (traverse g [s] []) = reachable g s"
proof -
  show "depth_first g s = Inr (traverse g [s] [])"
    using assms unfolding depth_first_def by (rule if_P)
  show "distinct (traverse g [s] [])"
    by (rule traverse_distinct) simp
  show "set (traverse g [s] []) = reachable g s"
    using assms by (rule traverse_reachable)
qed

lemma reachable_self: "s \<in> reachable g s"
  by (simp add: reachable_def)

lemma reachable_in_graph:
  assumes "s \<in> set (vertex_list g)"
  shows "reachable g s \<subseteq> set (vertex_list g)"
proof
  fix t assume "t \<in> reachable g s"
  then have "(s, t) \<in> (adjacency g)\<^sup>*" by (simp add: reachable_def)
  then show "t \<in> set (vertex_list g)"
    by (induction rule: rtrancl_induct) (auto simp: assms adjacency_def)
qed

lemma reachable_closed: "adjacency g `` reachable g s \<subseteq> reachable g s"
  by (auto simp: reachable_def intro: rtrancl_into_rtrancl)

lemma reachable_trans: "t \<in> reachable g s \<Longrightarrow> reachable g t \<subseteq> reachable g s"
  by (auto simp: reachable_def)

lemma adjacency_sym:
  assumes "wf_graph g"
  shows "sym (adjacency g)"
proof (rule symI)
  fix u v assume "(u, v) \<in> adjacency g"
  then obtain w where e: "edge_map g u v = Some w"
    by (auto simp: adjacency_def)
  from wf_edge_sym [OF assms e] wf_edge_vertices(1) [OF assms e]
  show "(v, u) \<in> adjacency g"
    by (simp add: adjacency_def)
qed

lemma reachable_sym:
  assumes "wf_graph g" and "t \<in> reachable g s"
  shows "s \<in> reachable g t"
proof -
  have "sym ((adjacency g)\<^sup>*)"
    using adjacency_sym [OF assms(1)] by (rule sym_rtrancl)
  with assms(2) show ?thesis
    by (auto simp: reachable_def dest: symD)
qed

lemma reachable_class:
  assumes "wf_graph g" and "t \<in> reachable g s"
  shows "reachable g t = reachable g s"
  using reachable_trans [OF assms(2)] reachable_trans [OF reachable_sym [OF assms]]
  by blast

subsection \<open>Connectivity of a graph\<close>

lemma is_connected_empty: "vertex_list g = [] \<Longrightarrow> is_connected g = Inr True"
  by (simp add: is_connected_def is_empty_def num_vertices_def)

lemma is_connected_nonempty:
  assumes "vertex_list g = v # vs"
  shows "is_connected g = Inr (length (traverse g [v] []) = length (vertex_list g))"
proof -
  have "v \<in> set (vertex_list g)"
    using assms by simp
  then have "depth_first g v = Inr (traverse g [v] [])"
    by (rule depth_first_result(1))
  then show ?thesis
    using assms by (simp add: is_connected_def is_empty_def num_vertices_def)
qed

lemma traverse_full_iff:
  assumes "distinct (vertex_list g)" and "v \<in> set (vertex_list g)"
  shows "length (traverse g [v] []) = length (vertex_list g) \<longleftrightarrow>
         reachable g v = set (vertex_list g)"
proof -
  note df = depth_first_result [OF assms(2)]
  have sub: "reachable g v \<subseteq> set (vertex_list g)"
    using assms(2) by (rule reachable_in_graph)
  have len: "length (traverse g [v] []) = card (reachable g v)"
    using df(2,3) distinct_card by fastforce
  have lenV: "length (vertex_list g) = card (set (vertex_list g))"
    using assms(1) by (simp add: distinct_card)
  show ?thesis
  proof
    assume "length (traverse g [v] []) = length (vertex_list g)"
    then have "card (reachable g v) = card (set (vertex_list g))"
      using len lenV by simp
    with sub show "reachable g v = set (vertex_list g)"
      by (intro card_subset_eq) simp_all
  next
    assume "reachable g v = set (vertex_list g)"
    then show "length (traverse g [v] []) = length (vertex_list g)"
      using len lenV by simp
  qed
qed

lemma is_connected_iff:
  assumes "wf_graph g"
  shows "is_connected g = Inr (connected g)"
proof (cases "vertex_list g")
  case Nil
  then show ?thesis
    by (simp add: is_connected_empty connected_def)
next
  case (Cons v vs)
  have d: "distinct (vertex_list g)"
    using assms by (simp add: wf_graph_def)
  have v: "v \<in> set (vertex_list g)"
    using Cons by simp
  have "reachable g v = set (vertex_list g) \<longleftrightarrow> connected g"
  proof
    assume full: "reachable g v = set (vertex_list g)"
    show "connected g"
      unfolding connected_def
    proof (intro ballI)
      fix a b assume "a \<in> set (vertex_list g)" and "b \<in> set (vertex_list g)"
      then have "a \<in> reachable g v" and "b \<in> reachable g v"
        using full by simp_all
      then show "b \<in> reachable g a"
        using reachable_class [OF assms, of a v] by simp
    qed
  next
    assume "connected g"
    then have "set (vertex_list g) \<subseteq> reachable g v"
      using v by (auto simp: connected_def)
    with reachable_in_graph [OF v] show "reachable g v = set (vertex_list g)"
      by blast
  qed
  then show ?thesis
    using is_connected_nonempty [OF Cons] traverse_full_iff [OF d v] by simp
qed

lemma is_connected_total: "\<exists>b. is_connected g = Inr b"
proof (cases "vertex_list g")
  case Nil
  then show ?thesis by (blast intro: is_connected_empty)
next
  case (Cons v vs)
  then show ?thesis by (blast intro: is_connected_nonempty)
qed

lemma is_connected_small:
  assumes "length (vertex_list g) \<le> 1"
  shows "is_connected g = Inr True"
proof (cases "vertex_list g")
  case Nil
  then show ?thesis by (rule is_connected_empty)
next
  case (Cons v vs)
  with assms have V: "vertex_list g = [v]" by simp
  then have v: "v \<in> set (vertex_list g)" and d: "distinct (vertex_list g)"
    by simp_all
  have "reachable g v \<subseteq> {v}"
    using reachable_in_graph [OF v] V by simp
  then have "reachable g v = set (vertex_list g)"
    using reachable_self [of v g] V by auto
  then have "length (traverse g [v] []) = length (vertex_list g)"
    using traverse_full_iff [OF d v] by simp
  then show ?thesis
    using is_connected_nonempty [OF V] by simp
qed

subsection \<open>Building a component\<close>

lemma add_edges_inner:
  assumes "v \<in> set (vertex_list c)" and "fst ` set ns \<subseteq> set (vertex_list c)"
  shows "\<exists>c'. for_each (\<lambda>c n. add_edge c v (fst n) (snd n)) c ns = Inr c' \<and> extends c c' \<and>
           (\<forall>n \<in> fst ` set ns. edge_map c' v n \<noteq> None)"
  using assms
proof (induction ns arbitrary: c)
  case Nil
  then show ?case by (simp add: extends_refl)
next
  case (Cons n ns)
  then obtain c1 where c1: "add_edge c v (fst n) (snd n) = Inr c1" "extends c c1"
    "edge_map c1 v (fst n) \<noteq> None"
    using add_edge_result [of v c "fst n" "snd n"] by auto
  then have V: "vertex_list c1 = vertex_list c"
    by (simp add: extends_def)
  obtain c' where c': "for_each (\<lambda>c n. add_edge c v (fst n) (snd n)) c1 ns = Inr c'"
    "extends c1 c'" "\<forall>n \<in> fst ` set ns. edge_map c' v n \<noteq> None"
    using Cons.IH [of c1] Cons.prems V by auto
  have "edge_map c' v (fst n) \<noteq> None"
    using c1(3) c'(2) by (simp add: extends_def)
  with c1 c' show ?case
    by (auto intro: extends_trans)
qed

lemma add_edges_outer:
  assumes "set vs \<subseteq> set (vertex_list c)"
    and "\<forall>v \<in> set vs. fst ` set (neighbours g v) \<subseteq> set (vertex_list c)"
  shows "\<exists>c'. for_each (\<lambda>c v. for_each (\<lambda>c n. add_edge c v (fst n) (snd n)) c (neighbours g v)) c vs
             = Inr c' \<and> extends c c' \<and>
           (\<forall>v \<in> set vs. \<forall>n \<in> fst ` set (neighbours g v). edge_map c' v n \<noteq> None)"
  using assms
proof (induction vs arbitrary: c)
  case Nil
  then show ?case by (simp add: extends_refl)
next
  case (Cons v vs)
  let ?inner = "\<lambda>c v. for_each (\<lambda>c n. add_edge c v (fst n) (snd n)) c (neighbours g v)"
  obtain c1 where c1: "?inner c v = Inr c1" "extends c c1"
    "\<forall>n \<in> fst ` set (neighbours g v). edge_map c1 v n \<noteq> None"
    using add_edges_inner [of v c "neighbours g v"] Cons.prems by auto
  then have V: "vertex_list c1 = vertex_list c"
    by (simp add: extends_def)
  obtain c' where c': "for_each ?inner c1 vs = Inr c'" "extends c1 c'"
    "\<forall>v \<in> set vs. \<forall>n \<in> fst ` set (neighbours g v). edge_map c' v n \<noteq> None"
    using Cons.IH [of c1] Cons.prems V by auto
  have "\<forall>n \<in> fst ` set (neighbours g v). edge_map c' v n \<noteq> None"
    using c1(3) c'(2) by (simp add: extends_def)
  with c1 c' show ?case
    by (auto intro: extends_trans)
qed

lemma on_back_snoc:
  "on_back f (cs @ [c]) = (case f c of Inl e \<Rightarrow> Inl e | Inr c' \<Rightarrow> Inr (cs @ [c']))"
  by (simp add: on_back_def split: sum.splits)

lemma for_each_on_back:
  "for_each (\<lambda>cs x. on_back (f x) cs) (cs @ [c]) xs =
     (case for_each (\<lambda>c x. f x c) c xs of Inl e \<Rightarrow> Inl e | Inr c' \<Rightarrow> Inr (cs @ [c']))"
  by (induction xs arbitrary: c) (auto simp: on_back_snoc split: sum.splits)

lemma rebuild_edges_snoc:
  "rebuild_edges g (cs @ [c]) v =
     (case for_each (\<lambda>c n. add_edge c v (fst n) (snd n)) c (neighbours g v) of
        Inl e \<Rightarrow> Inl e | Inr c' \<Rightarrow> Inr (cs @ [c']))"
  unfolding rebuild_edges_def by (rule for_each_on_back)

lemma for_each_rebuild_edges:
  "for_each (rebuild_edges g) (cs @ [c]) vs =
     (case for_each (\<lambda>c v. for_each (\<lambda>c n. add_edge c v (fst n) (snd n)) c (neighbours g v)) c vs of
        Inl e \<Rightarrow> Inl e | Inr c' \<Rightarrow> Inr (cs @ [c']))"
  by (induction vs arbitrary: c) (auto simp: rebuild_edges_snoc split: sum.splits)

lemma for_each_mark_and_add:
  "for_each mark_and_add (cs @ [c], vis) vs = Inr (cs @ [foldl add_vertex c vs], vis \<union> set vs)"
  by (induction vs arbitrary: c vis) (auto simp: mark_and_add_def on_back_snoc)

lemma foldl_add_vertex:
  assumes "distinct vs" and "set vs \<inter> set (vertex_list c) = {}"
  shows "vertex_list (foldl add_vertex c vs) = vertex_list c @ vs"
  using assms by (induction vs arbitrary: c) (auto simp: add_vertex_def)

lemma component_step_visited: "u \<in> vis \<Longrightarrow> component_step g (cs, vis) u = Inr (cs, vis)"
  by (simp add: component_step_def)

lemma component_step_fresh:
  assumes "u \<in> set (vertex_list g)" and "u \<notin> vis"
  shows "\<exists>c. component_step g (cs, vis) u = Inr (cs @ [c], vis \<union> reachable g u) \<and>
           vertex_list c = traverse g [u] [] \<and> covers g c"
proof -
  let ?L = "traverse g [u] []"
  note df = depth_first_result [OF assms(1)]
  let ?c0 = "foldl add_vertex empty_graph ?L"
  have V0: "vertex_list ?c0 = ?L"
    using df(2) by (simp add: foldl_add_vertex empty_graph_def)
  have nb: "fst ` set (neighbours g v) \<subseteq> set ?L" if "v \<in> set ?L" for v
    using that reachable_closed [of g u] by (auto simp: neighbours_adjacency df(3))
  obtain c where c: "for_each (\<lambda>c v. for_each (\<lambda>c n. add_edge c v (fst n) (snd n)) c
      (neighbours g v)) ?c0 ?L = Inr c" and ext: "extends ?c0 c"
    and edges: "\<forall>v \<in> set ?L. \<forall>n \<in> fst ` set (neighbours g v). edge_map c v n \<noteq> None"
    using add_edges_outer [of ?L ?c0 g] V0 nb by auto
  have V: "vertex_list c = ?L"
    using ext V0 by (simp add: extends_def)
  have "covers g c"
    unfolding covers_def
  proof (intro ballI impI)
    fix a b assume a: "a \<in> set (vertex_list c)" and b: "b \<in> set (vertex_list g)"
      and e: "edge_map g a b \<noteq> None"
    then have "b \<in> fst ` set (neighbours g a)"
      by (simp add: neighbours_adjacency adjacency_def)
    moreover have "a \<in> set ?L"
      using a V by simp
    ultimately show "edge_map c a b \<noteq> None"
      using edges by blast
  qed
  moreover have "component_step g (cs, vis) u =
      (case for_each mark_and_add (cs @ [empty_graph], vis) ?L of
         Inl e \<Rightarrow> Inl e
       | Inr s' \<Rightarrow>
           (case for_each (rebuild_edges g) (fst s') ?L of
              Inl e \<Rightarrow> Inl e
            | Inr components \<Rightarrow> Inr (components, snd s')))"
    using assms(2) df(1) by (simp add: component_step_def)
  then have "component_step g (cs, vis) u = Inr (cs @ [c], vis \<union> set ?L)"
    by (simp only: for_each_mark_and_add fst_conv snd_conv for_each_rebuild_edges c sum.case)
  ultimately show ?thesis
    using V df(3) by auto
qed

subsection \<open>The loop of \<^verbatim>\<open>connected_components\<close>\<close>

lemma components_inv_step:
  assumes wf: "wf_graph g" and inv: "components_inv g ps cs vis"
    and sub: "set (ps @ [x]) \<subseteq> set (vertex_list g)"
  shows "\<exists>cs' vis'. component_step g (cs, vis) x = Inr (cs', vis') \<and>
           components_inv g (ps @ [x]) cs' vis'"
proof (cases "x \<in> vis")
  case True
  have "ps \<noteq> []"
    using inv True by (auto simp: components_inv_def split: list.splits)
  then obtain d ds where d: "ps = d # ds" by (cases ps) auto
  have "components_inv g (ps @ [x]) cs vis"
    using inv True unfolding components_inv_def d by auto
  then show ?thesis
    using True by (simp add: component_step_visited)
next
  case False
  have xV: "x \<in> set (vertex_list g)"
    using sub by simp
  obtain c where step: "component_step g (cs, vis) x = Inr (cs @ [c], vis \<union> reachable g x)"
    and Vc: "vertex_list c = traverse g [x] []" and cov: "covers g c"
    using component_step_fresh [OF xV False] by blast
  have setc: "set (vertex_list c) = reachable g x"
    using Vc depth_first_result(3) [OF xV] by simp
  have vis: "vis = (\<Union>c \<in> set cs. set (vertex_list c))"
    using inv by (simp add: components_inv_def)
  have old: "\<exists>u \<in> set ps. vertex_list c' = traverse g [u] [] \<and> covers g c'"
    if "c' \<in> set cs" for c'
    using inv that by (simp add: components_inv_def)
  have disj: "set (vertex_list c') \<inter> reachable g x = {}" if c': "c' \<in> set cs" for c'
  proof (rule ccontr)
    assume "set (vertex_list c') \<inter> reachable g x \<noteq> {}"
    then obtain y where y: "y \<in> set (vertex_list c')" "y \<in> reachable g x" by blast
    obtain u where u: "u \<in> set ps" "vertex_list c' = traverse g [u] []"
      using old [OF c'] by blast
    have uV: "u \<in> set (vertex_list g)"
      using u(1) sub by auto
    have "y \<in> reachable g u"
      using y(1) u(2) depth_first_result(3) [OF uV] by simp
    then have "reachable g u = reachable g y"
      using reachable_class [OF wf] by blast
    also have "\<dots> = reachable g x"
      using reachable_class [OF wf y(2)] .
    finally have "x \<in> set (vertex_list c')"
      using u(2) depth_first_result(3) [OF uV] reachable_self [of x g] by simp
    with c' vis False show False by blast
  qed
  have 1: "vis \<union> reachable g x = (\<Union>c \<in> set (cs @ [c]). set (vertex_list c))"
    using vis setc by auto
  have 2: "set (ps @ [x]) \<subseteq> vis \<union> reachable g x"
    using inv reachable_self [of x g] by (auto simp: components_inv_def)
  have 3: "\<forall>c' \<in> set (cs @ [c]). \<exists>u \<in> set (ps @ [x]).
      vertex_list c' = traverse g [u] [] \<and> covers g c'"
    using old Vc cov by auto
  have 4: "set (vertex_list ((cs @ [c]) ! i)) \<inter> set (vertex_list ((cs @ [c]) ! j)) = {}"
    if "i < j \<and> j < length (cs @ [c])" for i j
  proof (cases "j < length cs")
    case True
    with that inv show ?thesis
      by (simp add: components_inv_def nth_append)
  next
    case False
    with that have j: "j = length cs" and i: "i < length cs" by simp_all
    then have "cs ! i \<in> set cs" by simp
    from disj [OF this] show ?thesis
      using i j setc by (simp add: nth_append)
  qed
  have 5: "case ps @ [x] of [] \<Rightarrow> cs @ [c] = []
      | first # _ \<Rightarrow> cs @ [c] \<noteq> [] \<and> vertex_list (hd (cs @ [c])) = traverse g [first] []"
    using inv Vc by (cases ps) (auto simp: components_inv_def)
  have "components_inv g (ps @ [x]) (cs @ [c]) (vis \<union> reachable g x)"
    unfolding components_inv_def using 1 2 3 4 5 by blast
  with step show ?thesis by blast
qed

lemma components_loop:
  assumes wf: "wf_graph g" and "set vs \<subseteq> set (vertex_list g)"
  shows "\<exists>cs vis. for_each (component_step g) ([], {}) vs = Inr (cs, vis) \<and>
           components_inv g vs cs vis"
  using assms(2)
proof (induction vs rule: rev_induct)
  case Nil
  show ?case by (simp add: components_inv_def)
next
  case (snoc x vs)
  then obtain cs vis where st: "for_each (component_step g) ([], {}) vs = Inr (cs, vis)"
    and inv: "components_inv g vs cs vis"
    by auto
  from components_inv_step [OF wf inv snoc.prems] st show ?case
    by (simp add: for_each_snoc)
qed

lemma connected_components_inv:
  assumes "wf_graph g"
  shows "\<exists>cs vis. connected_components g = Inr cs \<and> components_inv g (vertex_list g) cs vis"
  using components_loop [OF assms subset_refl] by (auto simp: connected_components_def)

lemma component_vertices:
  assumes "components_inv g ps cs vis" and "set ps \<subseteq> set (vertex_list g)" and "c \<in> set cs"
  shows "\<exists>u \<in> set (vertex_list g). vertex_list c = traverse g [u] [] \<and>
           set (vertex_list c) = reachable g u \<and> set (vertex_list c) \<subseteq> set (vertex_list g) \<and>
           u \<in> set (vertex_list c) \<and> distinct (vertex_list c) \<and> covers g c"
proof -
  obtain u where u: "u \<in> set ps" "vertex_list c = traverse g [u] []" "covers g c"
    using assms(1,3) by (auto simp: components_inv_def)
  then have uV: "u \<in> set (vertex_list g)"
    using assms(2) by auto
  note df = depth_first_result [OF uV]
  show ?thesis
    using u uV df(2,3) reachable_in_graph [OF uV] reachable_self [of u g] by auto
qed

lemma components_union:
  assumes "components_inv g (vertex_list g) cs vis"
  shows "(\<Union>c \<in> set cs. set (vertex_list c)) = set (vertex_list g)"
proof -
  have "set (vertex_list g) \<subseteq> (\<Union>c \<in> set cs. set (vertex_list c))"
    using assms unfolding components_inv_def by blast
  moreover have "set (vertex_list c) \<subseteq> set (vertex_list g)" if c: "c \<in> set cs" for c
    using component_vertices [OF assms subset_refl c] by blast
  ultimately show ?thesis by blast
qed

text \<open>
  Claim C2. For every well-formed graph, \<^verbatim>\<open>connected_components\<close> returns a list of
  graphs whose vertex sets together are the vertex set of the graph, and the vertex sets
  of any two of them are disjoint.
\<close>

theorem components_partition:
  assumes "wf_graph g"
  shows "\<exists>cs. connected_components g = Inr cs \<and>
     (\<Union>c \<in> set cs. set (vertex_list c)) = set (vertex_list g) \<and>
     (\<forall>i j. i < j \<and> j < length cs \<longrightarrow>
        set (vertex_list (cs ! i)) \<inter> set (vertex_list (cs ! j)) = {})"
proof -
  obtain cs vis where cs: "connected_components g = Inr cs"
    and inv: "components_inv g (vertex_list g) cs vis"
    using connected_components_inv [OF assms] by blast
  have "(\<Union>c \<in> set cs. set (vertex_list c)) = set (vertex_list g)"
    using inv by (rule components_union)
  moreover have "\<forall>i j. i < j \<and> j < length cs \<longrightarrow>
        set (vertex_list (cs ! i)) \<inter> set (vertex_list (cs ! j)) = {}"
    using inv by (simp add: components_inv_def)
  ultimately show ?thesis
    using cs by blast
qed

theorem components_partition_witness:
  "wf_graph two_triangles \<and>
   (\<exists>cs. connected_components two_triangles = Inr cs \<and>
     (\<Union>c \<in> set cs. set (vertex_list c)) = set (vertex_list two_triangles) \<and>
     (\<forall>i j. i < j \<and> j < length cs \<longrightarrow>
        set (vertex_list (cs ! i)) \<inter> set (vertex_list (cs ! j)) = {}))"
proof -
  have wf: "wf_graph two_triangles" by code_simp
  from components_partition [OF wf] wf show ?thesis by blast
qed

lemma component_connected:
  assumes wf: "wf_graph g" and u: "u \<in> set (vertex_list g)"
    and Vc: "vertex_list c = traverse g [u] []" and cov: "covers g c"
  shows "vertex_list c \<noteq> [] \<and> is_connected c = Inr True"
proof -
  note df = depth_first_result [OF u]
  have setc: "set (vertex_list c) = reachable g u"
    using Vc df(3) by simp
  have dc: "distinct (vertex_list c)"
    using Vc df(2) by simp
  have "u \<in> set (vertex_list c)"
    using setc by (simp add: reachable_self)
  then obtain r rs where r: "vertex_list c = r # rs"
    by (cases "vertex_list c") auto
  then have rc: "r \<in> set (vertex_list c)" by simp
  then have "r \<in> reachable g u"
    using setc by simp
  then have cls: "reachable g r = set (vertex_list c)"
    using reachable_class [OF wf] setc by blast
  have "t \<in> reachable c r" if "(r, t) \<in> (adjacency g)\<^sup>*" for t
    using that
  proof (induction rule: rtrancl_induct)
    case base
    show ?case by (rule reachable_self)
  next
    case (step y z)
    have y: "y \<in> set (vertex_list c)"
      using step.hyps(1) cls unfolding reachable_def by blast
    have "z \<in> reachable g r"
      using step.hyps(1,2) by (auto simp: reachable_def intro: rtrancl_into_rtrancl)
    then have z: "z \<in> set (vertex_list c)"
      using cls by simp
    have "z \<in> set (vertex_list g)" "edge_map g y z \<noteq> None"
      using step.hyps(2) by (simp_all add: adjacency_def)
    then have "edge_map c y z \<noteq> None"
      using cov y unfolding covers_def by blast
    then have "(y, z) \<in> adjacency c"
      using z by (simp add: adjacency_def)
    with step.IH show ?case
      by (auto simp: reachable_def intro: rtrancl_into_rtrancl)
  qed
  then have "set (vertex_list c) \<subseteq> reachable c r"
    using cls by (auto simp: reachable_def)
  with reachable_in_graph [OF rc] have "reachable c r = set (vertex_list c)"
    by blast
  then have "length (traverse c [r] []) = length (vertex_list c)"
    using traverse_full_iff [OF dc rc] by simp
  then show ?thesis
    using is_connected_nonempty [OF r] r by simp
qed

text \<open>
  Claim C10. For every well-formed graph, every graph in the list returned by
  \<^verbatim>\<open>connected_components\<close> has a vertex, and \<^verbatim>\<open>is_connected\<close> returns true for it.
\<close>

theorem components_connected:
  assumes "wf_graph g"
  shows "\<exists>cs. connected_components g = Inr cs \<and>
           (\<forall>c \<in> set cs. \<not> is_empty c \<and> is_connected c = Inr True)"
proof -
  obtain cs vis where cs: "connected_components g = Inr cs"
    and inv: "components_inv g (vertex_list g) cs vis"
    using connected_components_inv [OF assms] by blast
  have "\<not> is_empty c \<and> is_connected c = Inr True" if c: "c \<in> set cs" for c
  proof -
    obtain u where "u \<in> set (vertex_list g)" "vertex_list c = traverse g [u] []" "covers g c"
      using component_vertices [OF inv subset_refl c] by blast
    with component_connected [OF assms] show ?thesis
      by (simp add: is_empty_def num_vertices_def)
  qed
  with cs show ?thesis by blast
qed

theorem components_connected_witness:
  "wf_graph two_triangles \<and>
   (\<exists>cs. connected_components two_triangles = Inr cs \<and>
           (\<forall>c \<in> set cs. \<not> is_empty c \<and> is_connected c = Inr True))"
proof -
  have wf: "wf_graph two_triangles" by code_simp
  from components_connected [OF wf] wf show ?thesis by blast
qed

text \<open>
  Claim C3. For every well-formed graph, \<^verbatim>\<open>is_connected\<close> returns true exactly when
  \<^verbatim>\<open>connected_components\<close> returns a list of one component or the graph is empty; for
  the empty graph the list of components is empty and \<^verbatim>\<open>is_connected\<close> is true.
\<close>

theorem connected_iff_one_component:
  assumes "wf_graph g"
  shows "\<exists>b cs. is_connected g = Inr b \<and> connected_components g = Inr cs \<and>
           (b \<longleftrightarrow> length cs = 1 \<or> is_empty g) \<and>
           (is_empty g \<longrightarrow> cs = [] \<and> b)"
proof -
  obtain cs vis where cs: "connected_components g = Inr cs"
    and inv: "components_inv g (vertex_list g) cs vis"
    using connected_components_inv [OF assms] by blast
  have d: "distinct (vertex_list g)"
    using assms by (simp add: wf_graph_def)
  show ?thesis
  proof (cases "vertex_list g")
    case Nil
    then have "cs = []"
      using inv by (simp add: components_inv_def)
    with Nil cs have "is_connected g = Inr True \<and> connected_components g = Inr [] \<and>
        (True \<longleftrightarrow> length ([] :: 'a weighted_graph list) = 1 \<or> is_empty g) \<and>
        (is_empty g \<longrightarrow> ([] :: 'a weighted_graph list) = [] \<and> True)"
      by (simp add: is_connected_empty is_empty_def num_vertices_def)
    then show ?thesis by blast
  next
    case (Cons v vs)
    then have v: "v \<in> set (vertex_list g)" by simp
    have ne: "cs \<noteq> []" and hd: "vertex_list (hd cs) = traverse g [v] []"
      using inv Cons by (simp_all add: components_inv_def)
    have hdset: "set (vertex_list (hd cs)) = reachable g v"
      using hd depth_first_result(3) [OF v] by simp
    have union: "(\<Union>c \<in> set cs. set (vertex_list c)) = set (vertex_list g)"
      using inv by (rule components_union)
    have "reachable g v = set (vertex_list g) \<longleftrightarrow> length cs = 1"
    proof
      assume full: "reachable g v = set (vertex_list g)"
      have "length cs \<le> 1"
      proof (rule ccontr)
        assume "\<not> length cs \<le> 1"
        then have two: "0 < (1::nat) \<and> 1 < length cs" by simp
        then have "set (vertex_list (cs ! 0)) \<inter> set (vertex_list (cs ! 1)) = {}"
          using inv unfolding components_inv_def by blast
        moreover have "cs ! 0 = hd cs"
          using ne by (simp add: hd_conv_nth)
        moreover have "cs ! 1 \<in> set cs"
          using two by simp
        then obtain u where "set (vertex_list (cs ! 1)) \<subseteq> set (vertex_list g)"
          "u \<in> set (vertex_list (cs ! 1))"
          using component_vertices [OF inv subset_refl] by blast
        ultimately show False
          using hdset full by auto
      qed
      with ne show "length cs = 1"
        by (cases cs) auto
    next
      assume "length cs = 1"
      then obtain c where "cs = [c]"
        by (cases cs) auto
      then have "(\<Union>c \<in> set cs. set (vertex_list c)) = set (vertex_list (hd cs))"
        by simp
      with union hdset show "reachable g v = set (vertex_list g)"
        by simp
    qed
    then have "is_connected g = Inr (length cs = 1)"
      using is_connected_nonempty [OF Cons] traverse_full_iff [OF d v] by simp
    with cs Cons show ?thesis
      by (simp add: is_empty_def num_vertices_def)
  qed
qed

theorem connected_iff_one_component_witness:
  "wf_graph triangle \<and>
   (\<exists>b cs. is_connected triangle = Inr b \<and> connected_components triangle = Inr cs \<and>
           (b \<longleftrightarrow> length cs = 1 \<or> is_empty triangle) \<and>
           (is_empty triangle \<longrightarrow> cs = [] \<and> b)) \<and>
   wf_graph (empty_graph :: nat weighted_graph) \<and> is_empty (empty_graph :: nat weighted_graph) \<and>
   (\<exists>b cs. is_connected (empty_graph :: nat weighted_graph) = Inr b \<and>
            connected_components (empty_graph :: nat weighted_graph) = Inr cs \<and> cs = [] \<and> b)"
proof -
  have wf: "wf_graph triangle" by code_simp
  have wf0: "wf_graph (empty_graph :: nat weighted_graph)"
    by (simp add: wf_graph_def empty_graph_def)
  have e: "is_empty (empty_graph :: nat weighted_graph)"
    by (simp add: is_empty_def num_vertices_def empty_graph_def)
  from connected_iff_one_component [OF wf] connected_iff_one_component [OF wf0] wf wf0 e
  show ?thesis by blast
qed

subsection \<open>Articulation points\<close>

lemma articulation_loop:
  "\<exists>t. for_each (articulation_step g) (t0, ps) vs =
     Inr (t, ps @ filter (\<lambda>v. is_connected (remove_vertex g v) = Inr False) vs)"
proof (induction vs arbitrary: t0 ps)
  case Nil
  show ?case by simp
next
  case (Cons v vs)
  obtain b where b: "is_connected (remove_vertex g v) = Inr b"
    using is_connected_total by blast
  let ?ps = "if \<not> b then ps @ [v] else ps"
  have "articulation_step g (t0, ps) v = Inr (remove_vertex g v, ?ps)"
    using b by (simp add: articulation_step_def Let_def)
  moreover obtain t where "for_each (articulation_step g) (remove_vertex g v, ?ps) vs =
     Inr (t, ?ps @ filter (\<lambda>v. is_connected (remove_vertex g v) = Inr False) vs)"
    using Cons.IH by blast
  ultimately show ?case
    using b by auto
qed

lemma articulation_points_filter:
  "articulation_points g =
     Inr (filter (\<lambda>v. is_connected (remove_vertex g v) = Inr False) (vertex_list g))"
proof -
  obtain t where "for_each (articulation_step g) (empty_graph, []) (vertex_list g) =
     Inr (t, [] @ filter (\<lambda>v. is_connected (remove_vertex g v) = Inr False) (vertex_list g))"
    using articulation_loop by blast
  then show ?thesis
    by (simp add: articulation_points_def)
qed

text \<open>
  Claim C6. For every well-formed graph, \<^verbatim>\<open>articulation_points\<close> returns the vertices
  of the graph, in enumeration order, for which \<^verbatim>\<open>is_connected\<close> is false on the graph
  without that vertex; these are the vertices whose removal leaves a graph in which some
  vertex does not reach some other one. A remainder of zero or one vertex is connected,
  so a graph of at most two vertices has no articulation point.
\<close>

theorem articulation_points_characterisation:
  assumes "wf_graph g"
  shows "\<exists>points. articulation_points g = Inr points \<and>
     points = filter (\<lambda>v. is_connected (remove_vertex g v) = Inr False) (vertex_list g) \<and>
     (\<forall>v. v \<in> set points \<longleftrightarrow>
        v \<in> set (vertex_list g) \<and> \<not> connected (remove_vertex g v)) \<and>
     (num_vertices g \<le> 2 \<longrightarrow> points = [])"
proof -
  let ?points = "filter (\<lambda>v. is_connected (remove_vertex g v) = Inr False) (vertex_list g)"
  have c: "is_connected (remove_vertex g v) = Inr (connected (remove_vertex g v))" for v
    using wf_remove_vertex [OF assms] by (rule is_connected_iff)
  have small: "?points = []" if "num_vertices g \<le> 2"
  proof -
    have "is_connected (remove_vertex g v) = Inr True" if v: "v \<in> set (vertex_list g)" for v
    proof -
      have "length (removeAll v (vertex_list g)) < length (vertex_list g)"
        using v by (rule length_removeAll_less)
      with \<open>num_vertices g \<le> 2\<close> have "length (vertex_list (remove_vertex g v)) \<le> 1"
        by (simp add: remove_vertex_def num_vertices_def)
      then show ?thesis by (rule is_connected_small)
    qed
    then show ?thesis
      by (simp add: filter_empty_conv)
  qed
  have iff: "\<forall>v. v \<in> set ?points \<longleftrightarrow>
        v \<in> set (vertex_list g) \<and> \<not> connected (remove_vertex g v)"
    by (simp add: c)
  have "articulation_points g = Inr ?points \<and> ?points = ?points \<and>
     (\<forall>v. v \<in> set ?points \<longleftrightarrow>
        v \<in> set (vertex_list g) \<and> \<not> connected (remove_vertex g v)) \<and>
     (num_vertices g \<le> 2 \<longrightarrow> ?points = [])"
    using articulation_points_filter [of g] iff small by simp
  then show ?thesis by (rule exI)
qed

theorem articulation_points_characterisation_witness:
  "wf_graph path_graph \<and> articulation_points path_graph = Inr [''B''] \<and>
   (\<forall>v. v \<in> set [''B''] \<longleftrightarrow>
      v \<in> set (vertex_list path_graph) \<and> \<not> connected (remove_vertex path_graph v)) \<and>
   wf_graph pair_graph \<and> num_vertices pair_graph \<le> 2 \<and>
   articulation_points pair_graph = Inr []"
proof -
  have wf1: "wf_graph path_graph" by code_simp
  have wf2: "wf_graph pair_graph" by code_simp
  have n: "num_vertices pair_graph \<le> 2" by code_simp
  have a: "articulation_points path_graph = Inr [''B'']" by code_simp
  obtain p1 where p1: "articulation_points path_graph = Inr p1"
    "\<forall>v. v \<in> set p1 \<longleftrightarrow>
      v \<in> set (vertex_list path_graph) \<and> \<not> connected (remove_vertex path_graph v)"
    using articulation_points_characterisation [OF wf1] by blast
  obtain p2 where p2: "articulation_points pair_graph = Inr p2"
    "num_vertices pair_graph \<le> 2 \<longrightarrow> p2 = []"
    using articulation_points_characterisation [OF wf2] by blast
  from p1 a have "p1 = [''B'']" by simp
  with p1 p2 n wf1 wf2 a show ?thesis by simp
qed

subsection \<open>The scan of \<^verbatim>\<open>min_distance\<close>\<close>

lemma least_distance_lower: "v \<in> set vs \<Longrightarrow> least_distance dist vs \<le> the (dist v)"
  by (induction vs) (auto simp: least_distance_def)

lemma least_distance_snoc:
  "least_distance dist (vs @ [v]) = min (the (dist v)) (least_distance dist vs)"
  by (induction vs) (auto simp: least_distance_def)

lemma least_distance_attained:
  "vs \<noteq> [] \<Longrightarrow> bounded_on dist vs \<Longrightarrow> \<exists>v \<in> set vs. the (dist v) = least_distance dist vs"
proof (induction vs)
  case Nil
  then show ?case by simp
next
  case (Cons a vs)
  show ?case
  proof (cases "vs = []")
    case True
    with Cons.prems show ?thesis
      by (auto simp: least_distance_def bounded_on_def)
  next
    case False
    with Cons obtain v where "v \<in> set vs" "the (dist v) = least_distance dist vs"
      by (auto simp: bounded_on_def)
    then show ?thesis
      by (cases "the (dist a) \<le> least_distance dist vs")
         (auto simp: least_distance_def min_def)
  qed
qed

lemma scan_result:
  assumes "bounded_on dist vs"
  shows "for_each (min_step dist spt_set) (None, INT_MAX) vs =
     Inr (if unprocessed vs spt_set = [] then None
          else Some (last (minimal_unprocessed dist vs spt_set)),
          least_distance dist (unprocessed vs spt_set))"
  using assms
proof (induction vs rule: rev_induct)
  case Nil
  then show ?case by (simp add: unprocessed_def least_distance_def)
next
  case (snoc x vs)
  then have b: "bounded_on dist vs" and "\<exists>d. dist x = Some d \<and> d \<le> INT_MAX"
    by (auto simp: bounded_on_def)
  then obtain d where d: "dist x = Some d" "d \<le> INT_MAX" by blast
  let ?U = "unprocessed vs spt_set"
  note IH = snoc.IH [OF b]
  show ?case
  proof (cases "x \<in> spt_set")
    case True
    then have "unprocessed (vs @ [x]) spt_set = ?U"
      by (simp add: unprocessed_def)
    then show ?thesis
      using True IH by (simp add: for_each_snoc min_step_def minimal_unprocessed_def)
  next
    case False
    then have U: "unprocessed (vs @ [x]) spt_set = ?U @ [x]"
      by (simp add: unprocessed_def)
    show ?thesis
    proof (cases "d \<le> least_distance dist ?U")
      case True
      then have "least_distance dist (?U @ [x]) = d"
        using d by (simp add: least_distance_snoc)
      then show ?thesis
        using True False IH d U
        by (simp add: for_each_snoc min_step_def minimal_unprocessed_def)
    next
      case gt: False
      then have l: "least_distance dist (?U @ [x]) = least_distance dist ?U"
        using d by (simp add: least_distance_snoc)
      have ne: "?U \<noteq> []"
        using gt d by (auto simp: least_distance_def)
      then have "filter (\<lambda>v. the (dist v) = least_distance dist ?U) ?U \<noteq> []"
        using least_distance_attained [of ?U dist] b
        by (auto simp: filter_empty_conv bounded_on_def unprocessed_def)
      then show ?thesis
        using gt False IH d U l ne
        by (simp add: for_each_snoc min_step_def minimal_unprocessed_def)
    qed
  qed
qed

lemma min_distance_result:
  assumes "bounded_on dist (vertex_list g)"
  shows "min_distance g dist spt_set =
     Inr (if unprocessed (vertex_list g) spt_set = [] then None
          else Some (last (minimal_unprocessed dist (vertex_list g) spt_set)))"
  by (simp add: min_distance_def scan_result [OF assms])

lemma minimal_unprocessed_nonempty:
  assumes "bounded_on dist vs" and "unprocessed vs spt_set \<noteq> []"
  shows "minimal_unprocessed dist vs spt_set \<noteq> []"
  using least_distance_attained [OF assms(2), of dist] assms(1)
  by (auto simp: minimal_unprocessed_def filter_empty_conv bounded_on_def unprocessed_def)

lemma minimal_unprocessed_iff:
  assumes "bounded_on dist vs"
  shows "u \<in> set (minimal_unprocessed dist vs spt_set) \<longleftrightarrow>
     u \<in> set vs \<and> u \<notin> spt_set \<and> (\<forall>v \<in> set vs. v \<notin> spt_set \<longrightarrow> the (dist u) \<le> the (dist v))"
proof
  assume u: "u \<in> set (minimal_unprocessed dist vs spt_set)"
  then have "u \<in> set (unprocessed vs spt_set)"
    and "the (dist u) = least_distance dist (unprocessed vs spt_set)"
    by (simp_all add: minimal_unprocessed_def)
  then show "u \<in> set vs \<and> u \<notin> spt_set \<and>
      (\<forall>v \<in> set vs. v \<notin> spt_set \<longrightarrow> the (dist u) \<le> the (dist v))"
    by (auto simp: unprocessed_def intro!: least_distance_lower)
next
  assume u: "u \<in> set vs \<and> u \<notin> spt_set \<and>
      (\<forall>v \<in> set vs. v \<notin> spt_set \<longrightarrow> the (dist u) \<le> the (dist v))"
  let ?U = "unprocessed vs spt_set"
  have uU: "u \<in> set ?U"
    using u by (simp add: unprocessed_def)
  then have ne: "?U \<noteq> []" by auto
  have "bounded_on dist ?U"
    using assms by (auto simp: bounded_on_def unprocessed_def)
  then obtain v where v: "v \<in> set ?U" "the (dist v) = least_distance dist ?U"
    using least_distance_attained [OF ne] by blast
  then have "the (dist u) \<le> least_distance dist ?U"
    using u by (auto simp: unprocessed_def)
  moreover have "least_distance dist ?U \<le> the (dist u)"
    using uU by (rule least_distance_lower)
  ultimately show "u \<in> set (minimal_unprocessed dist vs spt_set)"
    using uU by (simp add: minimal_unprocessed_def)
qed

subsection \<open>The relaxation loop\<close>

lemma relax_result:
  assumes "dist u \<noteq> None" and "dist v \<noteq> None"
  shows "relax g u spt_set dist v = Inr (relaxed g u spt_set [v] dist)"
proof -
  from assms obtain du dv where "dist u = Some du" "dist v = Some dv" by auto
  then show ?thesis
    by (cases "edge_map g u v")
       (auto simp: relax_def relaxed_def are_adjacent_def get_edge_weight_def fun_eq_iff)
qed

lemma relaxed_Nil: "relaxed g u spt_set [] dist = dist"
  by (simp add: relaxed_def)

lemma relaxed_snoc:
  assumes "u \<in> spt_set" and "x \<notin> set vs"
  shows "relaxed g u spt_set [x] (relaxed g u spt_set vs dist) = relaxed g u spt_set (vs @ [x]) dist"
  using assms by (auto simp: relaxed_def fun_eq_iff)

lemma relaxed_dom: "dist v \<noteq> None \<Longrightarrow> relaxed g u spt_set vs dist v \<noteq> None"
  by (simp add: relaxed_def)

lemma relax_loop_result:
  assumes "distinct vs" and "u \<in> spt_set" and "dist u \<noteq> None"
    and "\<forall>v \<in> set vs. dist v \<noteq> None"
  shows "for_each (relax g u spt_set) dist vs = Inr (relaxed g u spt_set vs dist)"
  using assms
proof (induction vs rule: rev_induct)
  case Nil
  then show ?case by (simp add: relaxed_Nil)
next
  case (snoc x vs)
  let ?d = "relaxed g u spt_set vs dist"
  have "for_each (relax g u spt_set) dist vs = Inr ?d"
    using snoc by simp
  moreover have "relax g u spt_set ?d x = Inr (relaxed g u spt_set [x] ?d)"
    using snoc.prems by (intro relax_result relaxed_dom) simp_all
  moreover have "relaxed g u spt_set [x] ?d = relaxed g u spt_set (vs @ [x]) dist"
    using snoc.prems by (intro relaxed_snoc) simp_all
  ultimately show ?case
    by (simp add: for_each_snoc)
qed

lemma relaxed_bounded:
  assumes "bounded_on dist vs"
  shows "bounded_on (relaxed g u spt_set ws dist) vs"
  unfolding bounded_on_def
proof
  fix v assume "v \<in> set vs"
  with assms obtain d where "dist v = Some d" "d \<le> INT_MAX"
    by (auto simp: bounded_on_def)
  then show "\<exists>d. relaxed g u spt_set ws dist v = Some d \<and> d \<le> INT_MAX"
    by (auto simp: relaxed_def)
qed

lemma int_add_exact: "INT_MIN \<le> a + b \<Longrightarrow> a + b \<le> INT_MAX \<Longrightarrow> int_add a b = a + b"
  by (simp add: int_add_def INT_MIN_def INT_MAX_def)

lemma relaxed_settled: "v \<in> spt_set \<Longrightarrow> relaxed g u spt_set vs dist v = dist v"
  by (simp add: relaxed_def)

lemma relaxed_le:
  "dist v \<noteq> None \<Longrightarrow> the (relaxed g u spt_set vs dist v) \<le> the (dist v)"
  by (auto simp: relaxed_def)

lemma relaxed_cases:
  "relaxed g u spt_set vs dist v = dist v \<or>
   (\<exists>w. v \<notin> spt_set \<and> edge_map g u v = Some w \<and> the (dist u) \<noteq> INT_MAX \<and>
        relaxed g u spt_set vs dist v = Some (int_add (the (dist u)) w))"
  by (auto simp: relaxed_def)

lemma relaxed_edge:
  assumes "v \<in> set vs" and "v \<notin> spt_set" and "edge_map g u v = Some w"
    and "the (dist u) \<noteq> INT_MAX"
  shows "the (relaxed g u spt_set vs dist v) \<le> int_add (the (dist u)) w"
  using assms by (auto simp: relaxed_def)

lemma relaxed_dom_eq:
  assumes "set vs \<subseteq> dom dist"
  shows "dom (relaxed g u spt_set vs dist) = dom dist"
  using assms by (auto simp: relaxed_def dom_def split: if_splits)

subsection \<open>One iteration of the main loop\<close>

lemma unprocessed_nonempty:
  assumes "distinct vs" and "spt_set \<subseteq> set vs" and "card spt_set < length vs"
  shows "unprocessed vs spt_set \<noteq> []"
proof
  assume "unprocessed vs spt_set = []"
  then have "set vs \<subseteq> spt_set"
    by (auto simp: unprocessed_def filter_empty_conv)
  with assms(2) have "spt_set = set vs" by auto
  with assms(1,3) show False
    by (simp add: distinct_card)
qed

lemma selected_properties:
  assumes "bounded_on dist (vertex_list g)" and "unprocessed (vertex_list g) spt_set \<noteq> []"
  shows "selected g dist spt_set \<in> set (vertex_list g)"
    and "selected g dist spt_set \<notin> spt_set"
    and "\<forall>v \<in> set (vertex_list g). v \<notin> spt_set \<longrightarrow>
           the (dist (selected g dist spt_set)) \<le> the (dist v)"
proof -
  let ?M = "minimal_unprocessed dist (vertex_list g) spt_set"
  have "?M \<noteq> []"
    by (rule minimal_unprocessed_nonempty [OF assms])
  then have "selected g dist spt_set \<in> set ?M"
    by (simp add: selected_def)
  then have m: "selected g dist spt_set \<in> set (unprocessed (vertex_list g) spt_set)"
    "the (dist (selected g dist spt_set)) = least_distance dist (unprocessed (vertex_list g) spt_set)"
    by (simp_all add: minimal_unprocessed_def)
  from m(1) show "selected g dist spt_set \<in> set (vertex_list g)"
    and "selected g dist spt_set \<notin> spt_set"
    by (simp_all add: unprocessed_def)
  show "\<forall>v \<in> set (vertex_list g). v \<notin> spt_set \<longrightarrow>
           the (dist (selected g dist spt_set)) \<le> the (dist v)"
    using m(2) by (auto simp: unprocessed_def intro!: least_distance_lower)
qed

lemma dijkstras_step_result:
  assumes "distinct (vertex_list g)" and "bounded_on dist (vertex_list g)"
    and "spt_set \<subseteq> set (vertex_list g)" and "card spt_set < length (vertex_list g)"
  shows "dijkstras_step g (dist, spt_set) =
     Inr (relaxed g (selected g dist spt_set) (insert (selected g dist spt_set) spt_set)
            (vertex_list g) dist,
          insert (selected g dist spt_set) spt_set)"
proof -
  let ?u = "selected g dist spt_set"
  have ne: "unprocessed (vertex_list g) spt_set \<noteq> []"
    using assms(1,3,4) by (rule unprocessed_nonempty)
  then have md: "min_distance g dist spt_set = Inr (Some ?u)"
    by (simp add: min_distance_result [OF assms(2)] selected_def)
  have u: "?u \<in> set (vertex_list g)"
    by (rule selected_properties(1) [OF assms(2) ne])
  have dom: "\<forall>v \<in> set (vertex_list g). dist v \<noteq> None"
    using assms(2) by (auto simp: bounded_on_def)
  have "for_each (relax g ?u (insert ?u spt_set)) dist (vertex_list g) =
      Inr (relaxed g ?u (insert ?u spt_set) (vertex_list g) dist)"
    using assms(1) dom u by (intro relax_loop_result) simp_all
  with md show ?thesis
    by (simp add: dijkstras_step_def Let_def)
qed

lemma initial_fold:
  "foldl (\<lambda>m x. map_insert m x c) m0 vs v =
     (if m0 v = None \<and> v \<in> set vs then Some c else m0 v)"
  by (induction vs arbitrary: m0) (auto simp: map_insert_def split: option.splits)

lemma initial_distances_apply:
  "initial_distances g s v =
     (if vertex_list g \<noteq> [] \<and> v = s then Some 0
      else if v \<in> set (vertex_list g) then Some INT_MAX else None)"
  by (simp add: initial_distances_def initial_fold is_empty_def num_vertices_def Let_def)

lemma initial_distances_bounded: "bounded_on (initial_distances g s) (vertex_list g)"
  by (auto simp: bounded_on_def initial_distances_apply INT_MAX_def)

lemma loop_state_0: "loop_state g s 0 = Inr (initial_distances g s, {})"
  by (simp add: loop_state_def dijkstras_loop_def)

lemma loop_state_Suc:
  assumes "i < length (vertex_list g)"
  shows "loop_state g s (Suc i) =
     (case loop_state g s i of Inl e \<Rightarrow> Inl e | Inr st \<Rightarrow> dijkstras_step g st)"
  using assms
  by (simp add: loop_state_def dijkstras_loop_def take_Suc_conv_app_nth for_each_snoc)

lemma loop_state_basic:
  assumes "distinct (vertex_list g)" and "i \<le> length (vertex_list g)"
  shows "\<exists>dist spt_set. loop_state g s i = Inr (dist, spt_set) \<and>
           bounded_on dist (vertex_list g) \<and> spt_set \<subseteq> set (vertex_list g) \<and>
           card spt_set = i"
  using assms(2)
proof (induction i)
  case 0
  then show ?case
    by (simp add: loop_state_0 initial_distances_bounded)
next
  case (Suc i)
  then obtain dist spt_set where st: "loop_state g s i = Inr (dist, spt_set)"
    and b: "bounded_on dist (vertex_list g)" and sub: "spt_set \<subseteq> set (vertex_list g)"
    and c: "card spt_set = i"
    by auto
  have lt: "card spt_set < length (vertex_list g)"
    using Suc.prems c by simp
  let ?u = "selected g dist spt_set"
  have ne: "unprocessed (vertex_list g) spt_set \<noteq> []"
    using assms(1) sub lt by (rule unprocessed_nonempty)
  have fin: "finite spt_set"
    using sub by (rule finite_subset) simp
  have "loop_state g s (Suc i) =
      Inr (relaxed g ?u (insert ?u spt_set) (vertex_list g) dist, insert ?u spt_set)"
    using Suc.prems st by (simp add: loop_state_Suc dijkstras_step_result [OF assms(1) b sub lt])
  moreover have "bounded_on (relaxed g ?u (insert ?u spt_set) (vertex_list g) dist) (vertex_list g)"
    by (rule relaxed_bounded [OF b])
  moreover have "insert ?u spt_set \<subseteq> set (vertex_list g)"
    using sub selected_properties(1) [OF b ne] by simp
  moreover have "card (insert ?u spt_set) = Suc i"
    using selected_properties(2) [OF b ne] fin c by simp
  ultimately show ?case by blast
qed

lemma initial_distances_dom:
  "s \<in> set (vertex_list g) \<Longrightarrow> dom (initial_distances g s) = set (vertex_list g)"
  by (auto simp: dom_def initial_distances_apply)

subsection \<open>Selection in the main loop\<close>

text \<open>
  Claim C5, amended. In every iteration of the main loop of \<^verbatim>\<open>dijkstras\<close>, every
  vertex of the graph has a distance in the map, and the vertex that \<^verbatim>\<open>min_distance\<close>
  selects is, among the unprocessed vertices of least current distance, the last one in
  the enumeration order of the graph.
\<close>

theorem min_distance_picks_last:
  assumes "distinct (vertex_list g)" and "i < num_vertices g"
  shows "\<exists>dist spt_set.
     loop_state g s i = Inr (dist, spt_set) \<and> set (vertex_list g) \<subseteq> dom dist \<and>
     minimal_unprocessed dist (vertex_list g) spt_set \<noteq> [] \<and>
     min_distance g dist spt_set =
       Inr (Some (last (minimal_unprocessed dist (vertex_list g) spt_set))) \<and>
     (\<forall>u. u \<in> set (minimal_unprocessed dist (vertex_list g) spt_set) \<longleftrightarrow>
        u \<in> set (vertex_list g) \<and> u \<notin> spt_set \<and>
        (\<forall>v \<in> set (vertex_list g). v \<notin> spt_set \<longrightarrow> the (dist u) \<le> the (dist v)))"
proof -
  have i: "i \<le> length (vertex_list g)"
    using assms(2) by (simp add: num_vertices_def)
  obtain dist spt_set where st: "loop_state g s i = Inr (dist, spt_set)"
    and b: "bounded_on dist (vertex_list g)" and sub: "spt_set \<subseteq> set (vertex_list g)"
    and c: "card spt_set = i"
    using loop_state_basic [OF assms(1) i] by blast
  have ne: "unprocessed (vertex_list g) spt_set \<noteq> []"
    using assms sub c by (intro unprocessed_nonempty) (simp_all add: num_vertices_def)
  have "minimal_unprocessed dist (vertex_list g) spt_set \<noteq> []"
    using b ne by (rule minimal_unprocessed_nonempty)
  moreover have "min_distance g dist spt_set =
       Inr (Some (last (minimal_unprocessed dist (vertex_list g) spt_set)))"
    using ne by (simp add: min_distance_result [OF b])
  moreover have "set (vertex_list g) \<subseteq> dom dist"
    using b by (auto simp: bounded_on_def)
  ultimately show ?thesis
    using st minimal_unprocessed_iff [OF b] by blast
qed

theorem min_distance_picks_last_witness:
  "distinct (vertex_list fork) \<and> 1 < num_vertices fork \<and>
   (\<exists>dist spt_set.
     loop_state fork 1 1 = Inr (dist, spt_set) \<and> set (vertex_list fork) \<subseteq> dom dist \<and>
     minimal_unprocessed dist (vertex_list fork) spt_set \<noteq> [] \<and>
     min_distance fork dist spt_set =
       Inr (Some (last (minimal_unprocessed dist (vertex_list fork) spt_set))) \<and>
     (\<forall>u. u \<in> set (minimal_unprocessed dist (vertex_list fork) spt_set) \<longleftrightarrow>
        u \<in> set (vertex_list fork) \<and> u \<notin> spt_set \<and>
        (\<forall>v \<in> set (vertex_list fork). v \<notin> spt_set \<longrightarrow> the (dist u) \<le> the (dist v))))"
proof -
  have d: "distinct (vertex_list fork)" by code_simp
  have n: "1 < num_vertices fork" by code_simp
  from min_distance_picks_last [OF d n, of 1] d n show ?thesis by blast
qed

text \<open>
  Counterexample to claim C5 as stated. In the graph \<open>fork\<close> the vertices 2 and 3 both have
  distance 1 after the first iteration from source 1; \<^verbatim>\<open>min_distance\<close> selects 3, not
  the first of them in enumeration order.
\<close>

theorem min_distance_first_counterexample:
  "(case loop_state fork 1 1 of
      Inl e \<Rightarrow> False
    | Inr s \<Rightarrow>
        minimal_unprocessed (fst s) (vertex_list fork) (snd s) = [2, 3] \<and>
        fst s 2 = Some 1 \<and> fst s 3 = Some 1 \<and>
        min_distance fork (fst s) (snd s) = Inr (Some 3) \<and>
        min_distance fork (fst s) (snd s) \<noteq>
          Inr (Some (hd (minimal_unprocessed (fst s) (vertex_list fork) (snd s)))))"
  by code_simp

text \<open>
  Claim C9. After \<open>i\<close> iterations of the main loop of \<^verbatim>\<open>dijkstras\<close> the set
  \<open>spt_set\<close> holds exactly \<open>i\<close> vertices of the graph. While iterations remain,
  some vertex of the graph is outside \<open>spt_set\<close> with a distance of at most
  \<open>INT_MAX\<close>, and \<^verbatim>\<open>min_distance\<close> returns an assigned vertex, one of the graph
  that is not in \<open>spt_set\<close>.
\<close>

theorem min_distance_initialised:
  assumes "distinct (vertex_list g)" and "i \<le> num_vertices g"
  shows "\<exists>dist spt_set.
     loop_state g s i = Inr (dist, spt_set) \<and>
     spt_set \<subseteq> set (vertex_list g) \<and> card spt_set = i \<and>
     (i < num_vertices g \<longrightarrow>
        (\<exists>v \<in> set (vertex_list g). v \<notin> spt_set \<and> (\<exists>d. dist v = Some d \<and> d \<le> INT_MAX)) \<and>
        (\<exists>u. min_distance g dist spt_set = Inr (Some u) \<and>
              u \<in> set (vertex_list g) \<and> u \<notin> spt_set))"
proof -
  have i: "i \<le> length (vertex_list g)"
    using assms(2) by (simp add: num_vertices_def)
  obtain dist spt_set where st: "loop_state g s i = Inr (dist, spt_set)"
    and b: "bounded_on dist (vertex_list g)" and sub: "spt_set \<subseteq> set (vertex_list g)"
    and c: "card spt_set = i"
    using loop_state_basic [OF assms(1) i] by blast
  have "(\<exists>v \<in> set (vertex_list g). v \<notin> spt_set \<and> (\<exists>d. dist v = Some d \<and> d \<le> INT_MAX)) \<and>
        (\<exists>u. min_distance g dist spt_set = Inr (Some u) \<and>
              u \<in> set (vertex_list g) \<and> u \<notin> spt_set)"
    if lt: "i < num_vertices g"
  proof -
    have ne: "unprocessed (vertex_list g) spt_set \<noteq> []"
      using assms(1) sub c lt by (intro unprocessed_nonempty) (simp_all add: num_vertices_def)
    then obtain v where v: "v \<in> set (vertex_list g)" "v \<notin> spt_set"
      by (auto simp: unprocessed_def filter_empty_conv)
    then have "\<exists>d. dist v = Some d \<and> d \<le> INT_MAX"
      using b by (simp add: bounded_on_def)
    moreover have "min_distance g dist spt_set = Inr (Some (selected g dist spt_set))"
      using ne by (simp add: min_distance_result [OF b] selected_def)
    ultimately show ?thesis
      using v selected_properties(1,2) [OF b ne] by blast
  qed
  with st sub c show ?thesis by blast
qed

theorem min_distance_initialised_witness:
  "distinct (vertex_list triangle) \<and> 2 \<le> num_vertices triangle \<and> 2 < num_vertices triangle \<and>
   (\<exists>dist spt_set.
     loop_state triangle ''A'' 2 = Inr (dist, spt_set) \<and>
     spt_set \<subseteq> set (vertex_list triangle) \<and> card spt_set = 2 \<and>
     (\<exists>v \<in> set (vertex_list triangle). v \<notin> spt_set \<and> (\<exists>d. dist v = Some d \<and> d \<le> INT_MAX)) \<and>
     (\<exists>u. min_distance triangle dist spt_set = Inr (Some u) \<and>
           u \<in> set (vertex_list triangle) \<and> u \<notin> spt_set))"
proof -
  have d: "distinct (vertex_list triangle)" by code_simp
  have n: "2 \<le> num_vertices triangle" by code_simp
  have n': "2 < num_vertices triangle" by code_simp
  from min_distance_initialised [OF d n, of "''A''"] d n n' show ?thesis by blast
qed

subsection \<open>Paths and walks\<close>

lemma is_path_snoc:
  "is_path g (p @ [v]) \<longleftrightarrow>
     v \<in> set (vertex_list g) \<and> (p = [] \<or> is_path g p \<and> edge_map g (last p) v \<noteq> None)"
  by (induction g p rule: is_path.induct) auto

lemma path_weight_snoc:
  "p \<noteq> [] \<Longrightarrow> path_weight g (p @ [v]) = path_weight g p + the (edge_map g (last p) v)"
  by (induction g p rule: path_weight.induct) auto

lemma walk_nonneg:
  assumes "nonneg_weights g" and "walk g s t d"
  shows "0 \<le> d"
  using assms(2)
proof (induction rule: walk.induct)
  case walk_start
  show ?case by simp
next
  case (walk_step u d v w)
  with nonneg_edge [OF assms(1) walk_step.hyps(2)] show ?case by simp
qed

lemma walk_to_path:
  assumes "wf_graph g" and "walk g s t d"
  shows "\<exists>p. path_between g s p t \<and> path_weight g p = d"
  using assms(2)
proof (induction rule: walk.induct)
  case walk_start
  then have "path_between g s [s] s \<and> path_weight g [s] = 0"
    by (simp add: path_between_def)
  then show ?case by blast
next
  case (walk_step u d v w)
  then obtain p where p: "path_between g s p u" "path_weight g p = d" by blast
  then have ne: "p \<noteq> []" by (auto simp: path_between_def)
  have "v \<in> set (vertex_list g)"
    using assms(1) walk_step.hyps(2) by (rule wf_edge_vertices)
  then have "path_between g s (p @ [v]) v"
    using p(1) ne walk_step.hyps(2) by (simp add: path_between_def is_path_snoc)
  moreover have "path_weight g (p @ [v]) = d + w"
    using p ne walk_step.hyps(2) by (simp add: path_weight_snoc path_between_def)
  ultimately show ?case by blast
qed

lemma path_to_walk:
  "is_path g p \<Longrightarrow> walk g (hd p) (last p) (path_weight g p)"
proof (induction p rule: rev_induct)
  case Nil
  then show ?case by simp
next
  case (snoc v p)
  show ?case
  proof (cases "p = []")
    case True
    with snoc.prems show ?thesis by (simp add: walk_start)
  next
    case False
    with snoc.prems obtain w where w: "is_path g p" "edge_map g (last p) v = Some w"
      by (auto simp: is_path_snoc)
    have "walk g (hd p) v (path_weight g p + w)"
      using snoc.IH [OF w(1)] w(2) by (rule walk_step)
    then show ?thesis
      using False w(2) by (simp add: path_weight_snoc)
  qed
qed

lemma walk_iff_path:
  assumes "wf_graph g"
  shows "walk g s t d \<longleftrightarrow> (\<exists>p. path_between g s p t \<and> path_weight g p = d)"
  using walk_to_path [OF assms] path_to_walk by (fastforce simp: path_between_def)

text \<open>A walk that leaves a set containing its start crosses an edge out of the set.\<close>

lemma walk_crossing:
  assumes "nonneg_weights g" and "walk g s t d" and "s \<in> S" and "t \<notin> S"
  shows "\<exists>x y dx w. x \<in> S \<and> y \<notin> S \<and> walk g s x dx \<and> edge_map g x y = Some w \<and> dx + w \<le> d"
  using assms(2,4)
proof (induction rule: walk.induct)
  case walk_start
  with assms(3) show ?case by simp
next
  case (walk_step u d v w)
  show ?case
  proof (cases "u \<in> S")
    case True
    with walk_step show ?thesis by blast
  next
    case False
    then obtain x y dx w' where "x \<in> S" "y \<notin> S" "walk g s x dx"
      "edge_map g x y = Some w'" "dx + w' \<le> d"
      using walk_step.IH by blast
    moreover have "0 \<le> w"
      using assms(1) walk_step.hyps(2) by (rule nonneg_edge)
    ultimately show ?thesis
      by (intro exI [of _ x] exI [of _ y] exI [of _ dx] exI [of _ w']) simp
  qed
qed

lemma is_path_last: "is_path g p \<Longrightarrow> last p \<in> set (vertex_list g)"
  by (induction g p rule: is_path.induct) auto

subsection \<open>The invariant of the main loop\<close>

lemma initial_inv:
  assumes "s \<in> set (vertex_list g)"
  shows "dijkstra_inv g s (initial_distances g s) {}"
  using assms
  by (auto simp: dijkstra_inv_def initial_distances_bounded initial_distances_apply
      intro: walk_start)

lemma inv_edge:
  assumes "dijkstra_inv g s dist S" and "u \<in> S" and "v \<in> set (vertex_list g)" and "v \<notin> S"
    and "edge_map g u v = Some w" and "walk g s u d"
  shows "the (dist v) \<le> the (dist u) + w"
proof -
  have "\<forall>u \<in> S. \<forall>v \<in> set (vertex_list g) - S. \<forall>w.
        edge_map g u v = Some w \<and> (\<exists>d. walk g s u d) \<longrightarrow> the (dist v) \<le> the (dist u) + w"
    using assms(1) by (simp add: dijkstra_inv_def)
  with assms(2-) show ?thesis by blast
qed

lemma inv_settled:
  assumes "dijkstra_inv g s dist S" and "v \<in> S" and "walk g s v d"
  shows "is_distance g s v (the (dist v))"
proof -
  have "\<forall>v \<in> S. (\<exists>d. walk g s v d) \<longrightarrow> is_distance g s v (the (dist v))"
    using assms(1) by (simp add: dijkstra_inv_def)
  with assms(2-) show ?thesis by blast
qed

lemma initial_least:
  assumes "s \<in> set (vertex_list g)" and "u \<in> set (vertex_list g)"
    and "the (initial_distances g s u) \<le> the (initial_distances g s s)"
  shows "u = s"
proof (rule ccontr)
  assume "u \<noteq> s"
  moreover have "vertex_list g \<noteq> []"
    using assms(1) by auto
  ultimately have "initial_distances g s u = Some INT_MAX" "initial_distances g s s = Some 0"
    using assms(2) by (simp_all add: initial_distances_apply)
  with assms(3) show False
    by (simp add: INT_MAX_def)
qed

text \<open>The weights of the walks to a vertex are natural numbers, so one of them is least.\<close>

lemma is_distance_exists:
  assumes "nonneg_weights g" and "walk g s t d"
  shows "\<exists>d'. is_distance g s t d'"
proof -
  let ?P = "\<lambda>n. walk g s t (int n)"
  have "0 \<le> d"
    using assms by (rule walk_nonneg)
  then have "?P (nat d)"
    using assms(2) by simp
  then have least: "?P (LEAST n. ?P n)"
    by (rule LeastI)
  have "int (LEAST n. ?P n) \<le> d'" if w: "walk g s t d'" for d'
  proof -
    have d': "0 \<le> d'"
      using assms(1) w by (rule walk_nonneg)
    then have "?P (nat d')"
      using w by simp
    then have "(LEAST n. ?P n) \<le> nat d'"
      by (rule Least_le)
    with d' show ?thesis by simp
  qed
  with least show ?thesis
    unfolding is_distance_def by blast
qed

lemma walks_in_range_fit:
  assumes "walks_in_range g s" and "is_distance g s t d"
  shows "d \<le> INT_MAX"
  using assms unfolding walks_in_range_def by blast

lemma walks_in_range_sum:
  assumes "walks_in_range g s" and "is_distance g s u du" and "is_distance g s v dv"
    and "u \<noteq> v" and "edge_map g u v = Some w" and "du < INT_MAX" and "du \<le> dv"
  shows "du + w \<le> INT_MAX"
proof -
  have "\<forall>u v w du dv.
        is_distance g s u du \<and> is_distance g s v dv \<and> u \<noteq> v \<and> edge_map g u v = Some w \<and>
        du < INT_MAX \<and> du \<le> dv
        \<longrightarrow> du + w \<le> INT_MAX"
    using assms(1) unfolding walks_in_range_def by (rule conjunct2)
  with assms(2-) show ?thesis by blast
qed

text \<open>The first vertex that the main loop selects is the source.\<close>

lemma selected_first:
  assumes s: "s \<in> set (vertex_list g)" and inv: "dijkstra_inv g s dist {}"
    and ne: "unprocessed (vertex_list g) {} \<noteq> []"
  shows "selected g dist {} = s"
proof -
  have init: "dist = initial_distances g s"
    using inv by (simp add: dijkstra_inv_def)
  then have b: "bounded_on dist (vertex_list g)"
    by (simp add: initial_distances_bounded)
  note sel = selected_properties [OF b ne]
  have "the (dist (selected g dist {})) \<le> the (dist s)"
    using sel(3) s by simp
  then show ?thesis
    using init sel(1) s by (auto intro: initial_least)
qed

text \<open>
  The distance of the selected vertex is a lower bound for the weight of every walk to
  a vertex that has not been selected before.
\<close>

lemma selected_lower:
  assumes nn: "nonneg_weights g" and wf: "wf_graph g" and s: "s \<in> set (vertex_list g)"
    and inv: "dijkstra_inv g s dist S"
    and ne: "unprocessed (vertex_list g) S \<noteq> []"
    and t: "t \<notin> S" and w: "walk g s t d'"
  shows "the (dist (selected g dist S)) \<le> d'"
proof (cases "S = {}")
  case True
  then have "selected g dist S = s"
    using selected_first [OF s] inv ne by simp
  moreover have "dist = initial_distances g s"
    using inv True by (simp add: dijkstra_inv_def)
  ultimately have "the (dist (selected g dist S)) = 0"
    using s by (auto simp: initial_distances_apply)
  moreover have "0 \<le> d'"
    using nn w by (rule walk_nonneg)
  ultimately show ?thesis by simp
next
  case False
  let ?u = "selected g dist S"
  have b: "bounded_on dist (vertex_list g)"
    using inv by (simp add: dijkstra_inv_def)
  note sel = selected_properties [OF b ne]
  have sS: "s \<in> S"
    using inv False by (simp add: dijkstra_inv_def)
  obtain x y dx e where x: "x \<in> S" and y: "y \<notin> S" and wx: "walk g s x dx"
    and e: "edge_map g x y = Some e" and le: "dx + e \<le> d'"
    using walk_crossing [OF nn w sS t] by blast
  have yV: "y \<in> set (vertex_list g)"
    using wf e by (rule wf_edge_vertices)
  have "is_distance g s x (the (dist x))"
    using inv x wx by (rule inv_settled)
  then have "the (dist x) \<le> dx"
    using wx by (simp add: is_distance_def)
  moreover have "the (dist y) \<le> the (dist x) + e"
    using inv x yV y e wx by (rule inv_edge)
  moreover have "the (dist ?u) \<le> the (dist y)"
    using sel(3) y yV by simp
  ultimately show ?thesis
    using le by simp
qed

text \<open>The distance of the selected vertex is final.\<close>

lemma selected_final:
  assumes nn: "nonneg_weights g" and wf: "wf_graph g" and s: "s \<in> set (vertex_list g)"
    and range: "walks_in_range g s"
    and inv: "dijkstra_inv g s dist S"
    and ne: "unprocessed (vertex_list g) S \<noteq> []"
    and reach: "walk g s (selected g dist S) d0"
  shows "is_distance g s (selected g dist S) (the (dist (selected g dist S)))"
proof -
  let ?u = "selected g dist S"
  have b: "bounded_on dist (vertex_list g)"
    using inv by (simp add: dijkstra_inv_def)
  note sel = selected_properties [OF b ne]
  have lower: "the (dist ?u) \<le> d'" if "walk g s ?u d'" for d'
    using nn wf s inv ne sel(2) that by (rule selected_lower)
  have sound: "the (dist ?u) = INT_MAX \<or> walk g s ?u (the (dist ?u))"
    using inv sel(1) by (simp add: dijkstra_inv_def)
  have "walk g s ?u (the (dist ?u))"
  proof (cases "the (dist ?u) = INT_MAX")
    case True
    obtain d where d: "is_distance g s ?u d"
      using is_distance_exists [OF nn reach] by blast
    then have wd: "walk g s ?u d"
      by (simp add: is_distance_def)
    have "d \<le> INT_MAX"
      using range d by (rule walks_in_range_fit)
    moreover have "the (dist ?u) \<le> d"
      using wd by (rule lower)
    ultimately have "d = the (dist ?u)"
      using True by simp
    with wd show ?thesis by simp
  next
    case False
    with sound show ?thesis by simp
  qed
  with lower show ?thesis
    by (simp add: is_distance_def)
qed

lemma step_inv:
  assumes nn: "nonneg_weights g" and wf: "wf_graph g" and s: "s \<in> set (vertex_list g)"
    and range: "walks_in_range g s"
    and inv: "dijkstra_inv g s dist S"
    and ne: "unprocessed (vertex_list g) S \<noteq> []"
  shows "dijkstra_inv g s
           (relaxed g (selected g dist S) (insert (selected g dist S) S) (vertex_list g) dist)
           (insert (selected g dist S) S)"
proof -
  let ?u = "selected g dist S"
  let ?S = "insert ?u S"
  let ?d = "relaxed g ?u ?S (vertex_list g) dist"
  have b: "bounded_on dist (vertex_list g)"
    using inv by (simp add: dijkstra_inv_def)
  note sel = selected_properties [OF b ne]
  have dom: "dist v \<noteq> None" if "v \<in> set (vertex_list g)" for v
    using b that by (auto simp: bounded_on_def)
  have SV: "S \<subseteq> set (vertex_list g)"
    using inv by (simp add: dijkstra_inv_def)
  have sound: "the (dist v) = INT_MAX \<or> walk g s v (the (dist v))"
    if "v \<in> set (vertex_list g)" for v
    using inv that by (simp add: dijkstra_inv_def)
  have final: "is_distance g s v (the (dist v))" if v: "v \<in> ?S" and w: "walk g s v d" for v d
  proof (cases "v = ?u")
    case True
    with w selected_final [OF nn wf s range inv ne] show ?thesis by simp
  next
    case False
    with v have "v \<in> S" by simp
    with inv show ?thesis using w by (rule inv_settled)
  qed
  have exact: "int_add (the (dist ?u)) w = the (dist ?u) + w"
    if e: "edge_map g ?u v = Some w" and r: "the (dist ?u) \<noteq> INT_MAX" and v: "v \<notin> ?S" for v w
  proof -
    have wu: "walk g s ?u (the (dist ?u))"
      using sound [OF sel(1)] r by simp
    then have du: "is_distance g s ?u (the (dist ?u))"
      using final [of ?u] by simp
    have "walk g s v (the (dist ?u) + w)"
      using wu e by (rule walk_step)
    then obtain dv where dv: "is_distance g s v dv"
      using is_distance_exists [OF nn] by blast
    then have wv: "walk g s v dv"
      by (simp add: is_distance_def)
    have vS: "v \<notin> S" and uv: "?u \<noteq> v"
      using v by auto
    have le: "the (dist ?u) \<le> dv"
      using nn wf s inv ne vS wv by (rule selected_lower)
    have "the (dist ?u) \<le> INT_MAX"
      using b sel(1) by (auto simp: bounded_on_def)
    with r have lt: "the (dist ?u) < INT_MAX" by simp
    have "the (dist ?u) + w \<le> INT_MAX"
      using range du dv uv e lt le by (rule walks_in_range_sum)
    moreover have "0 \<le> the (dist ?u)"
      using nn wu by (rule walk_nonneg)
    moreover have "0 \<le> w"
      using nn e by (rule nonneg_edge)
    ultimately show ?thesis
      by (intro int_add_exact) (simp_all add: INT_MIN_def)
  qed
  have 1: "bounded_on ?d (vertex_list g)"
    using b by (rule relaxed_bounded)
  have 2: "?S \<subseteq> set (vertex_list g)"
    using SV sel(1) by simp
  have 3: "\<forall>v \<in> ?S. (\<exists>d. walk g s v d) \<longrightarrow> is_distance g s v (the (?d v))"
    using final by (auto simp: relaxed_settled)
  have 4: "\<forall>v \<in> set (vertex_list g). the (?d v) = INT_MAX \<or> walk g s v (the (?d v))"
  proof
    fix v assume v: "v \<in> set (vertex_list g)"
    from relaxed_cases [of g ?u ?S "vertex_list g" dist v]
    show "the (?d v) = INT_MAX \<or> walk g s v (the (?d v))"
    proof
      assume "?d v = dist v"
      with sound [OF v] show ?thesis by simp
    next
      assume "\<exists>w. v \<notin> ?S \<and> edge_map g ?u v = Some w \<and> the (dist ?u) \<noteq> INT_MAX \<and>
        ?d v = Some (int_add (the (dist ?u)) w)"
      then obtain w where vS: "v \<notin> ?S" and e: "edge_map g ?u v = Some w"
        and r: "the (dist ?u) \<noteq> INT_MAX"
        and eq: "?d v = Some (int_add (the (dist ?u)) w)" by blast
      have "walk g s ?u (the (dist ?u))"
        using sound [OF sel(1)] r by simp
      then have "walk g s v (the (dist ?u) + w)"
        using e by (rule walk_step)
      then show ?thesis
        using eq exact [OF e r vS] by simp
    qed
  qed
  have 5: "\<forall>x \<in> ?S. \<forall>v \<in> set (vertex_list g) - ?S. \<forall>w.
      edge_map g x v = Some w \<and> (\<exists>d. walk g s x d) \<longrightarrow> the (?d v) \<le> the (?d x) + w"
  proof (intro ballI allI impI)
    fix x v w
    assume x: "x \<in> ?S" and v: "v \<in> set (vertex_list g) - ?S"
      and ew: "edge_map g x v = Some w \<and> (\<exists>d. walk g s x d)"
    then have e: "edge_map g x v = Some w" and r: "\<exists>d. walk g s x d" by simp_all
    have vV: "v \<in> set (vertex_list g)" and vS: "v \<notin> ?S"
      using v by simp_all
    have dx: "?d x = dist x"
      using x by (simp add: relaxed_settled)
    have w0: "0 \<le> w"
      using nn e by (rule nonneg_edge)
    show "the (?d v) \<le> the (?d x) + w"
    proof (cases "x = ?u")
      case True
      show ?thesis
      proof (cases "the (dist ?u) = INT_MAX")
        case sentinel: True
        have "the (?d v) \<le> INT_MAX"
          using 1 vV by (auto simp: bounded_on_def)
        with sentinel w0 dx True show ?thesis by simp
      next
        case False
        have "the (?d v) \<le> int_add (the (dist ?u)) w"
          using vV vS e True False by (intro relaxed_edge) simp_all
        moreover have "int_add (the (dist ?u)) w = the (dist ?u) + w"
          using e True False vS by (intro exact) simp_all
        ultimately show ?thesis
          using dx True by simp
      qed
    next
      case False
      with x have xS: "x \<in> S" by simp
      have "the (dist v) \<le> the (dist x) + w"
        using inv_edge [OF inv xS _ _ e] v r by blast
      moreover have "the (?d v) \<le> the (dist v)"
        using v by (intro relaxed_le dom) simp
      ultimately show ?thesis
        using dx by simp
    qed
  qed
  have 6: "s \<in> ?S"
  proof (cases "S = {}")
    case True
    then have "?u = s"
      using selected_first [OF s] inv ne by simp
    then show ?thesis by simp
  next
    case False
    then show ?thesis
      using inv by (simp add: dijkstra_inv_def)
  qed
  show ?thesis
    unfolding dijkstra_inv_def using 1 2 3 4 5 6 by simp
qed

lemma loop_state_inv:
  assumes nn: "nonneg_weights g" and wf: "wf_graph g" and s: "s \<in> set (vertex_list g)"
    and range: "walks_in_range g s"
    and i: "i \<le> length (vertex_list g)"
  shows "\<exists>dist S. loop_state g s i = Inr (dist, S) \<and> dijkstra_inv g s dist S \<and>
           card S = i \<and> dom dist = set (vertex_list g)"
  using i
proof (induction i)
  case 0
  then show ?case
    using s by (simp add: loop_state_0 initial_inv initial_distances_dom)
next
  case (Suc i)
  then obtain dist S where st: "loop_state g s i = Inr (dist, S)"
    and inv: "dijkstra_inv g s dist S" and c: "card S = i"
    and dom: "dom dist = set (vertex_list g)"
    by auto
  have d: "distinct (vertex_list g)"
    using wf by (simp add: wf_graph_def)
  have b: "bounded_on dist (vertex_list g)" and sub: "S \<subseteq> set (vertex_list g)"
    using inv by (simp_all add: dijkstra_inv_def)
  have lt: "card S < length (vertex_list g)"
    using Suc.prems c by simp
  let ?u = "selected g dist S"
  let ?d = "relaxed g ?u (insert ?u S) (vertex_list g) dist"
  have ne: "unprocessed (vertex_list g) S \<noteq> []"
    using d sub lt by (rule unprocessed_nonempty)
  have fin: "finite S"
    using sub by (rule finite_subset) simp
  have "loop_state g s (Suc i) = Inr (?d, insert ?u S)"
    using Suc.prems st by (simp add: loop_state_Suc dijkstras_step_result [OF d b sub lt])
  moreover have "dijkstra_inv g s ?d (insert ?u S)"
    using nn wf s range inv ne by (rule step_inv)
  moreover have "card (insert ?u S) = Suc i"
    using selected_properties(2) [OF b ne] fin c by simp
  moreover have "dom ?d = set (vertex_list g)"
    using dom by (simp add: relaxed_dom_eq)
  ultimately show ?case by blast
qed

subsection \<open>Shortest paths\<close>

lemma is_distance_shortest_path:
  assumes wf: "wf_graph g" and "is_distance g s t d"
  shows "\<exists>p. shortest_path g s p t \<and> path_weight g p = d"
proof -
  from assms(2) have "walk g s t d" and least: "\<forall>d'. walk g s t d' \<longrightarrow> d \<le> d'"
    by (simp_all add: is_distance_def)
  then obtain p where p: "path_between g s p t" "path_weight g p = d"
    using walk_iff_path [OF wf] by blast
  have "path_weight g p \<le> path_weight g q" if "path_between g s q t" for q
  proof -
    have "walk g s t (path_weight g q)"
      using that walk_iff_path [OF wf] by blast
    with least p(2) show ?thesis by simp
  qed
  with p show ?thesis
    by (auto simp: shortest_path_def)
qed

lemma sums_to_walks:
  assumes wf: "wf_graph g" and range: "sums_in_range g s"
  shows "walks_in_range g s"
proof -
  have fit: "path_weight g p \<le> INT_MAX" if "shortest_path g s p t" for p t
    using range that unfolding sums_in_range_def by blast
  have sums: "path_weight g p + w \<le> INT_MAX"
    if "shortest_path g s p u" and "shortest_path g s q v" and "u \<noteq> v"
      and "edge_map g u v = Some w" and "path_weight g p < INT_MAX"
      and "path_weight g p \<le> path_weight g q" for p q u v w
  proof -
    have "\<forall>p q u v w.
        shortest_path g s p u \<and> shortest_path g s q v \<and> u \<noteq> v \<and> edge_map g u v = Some w \<and>
        path_weight g p < INT_MAX \<and> path_weight g p \<le> path_weight g q
        \<longrightarrow> path_weight g p + w \<le> INT_MAX"
      using range unfolding sums_in_range_def by (rule conjunct2)
    with that show ?thesis by blast
  qed
  have 1: "d \<le> INT_MAX" if dt: "is_distance g s t d" for t d
  proof -
    obtain p where "shortest_path g s p t" "path_weight g p = d"
      using is_distance_shortest_path [OF wf dt] by blast
    with fit [of p t] show ?thesis by simp
  qed
  have 2: "du + w \<le> INT_MAX"
    if u: "is_distance g s u du" and v: "is_distance g s v dv" and rest: "u \<noteq> v"
      "edge_map g u v = Some w" "du < INT_MAX" "du \<le> dv" for u v w du dv
  proof -
    obtain p where p: "shortest_path g s p u" "path_weight g p = du"
      using is_distance_shortest_path [OF wf u] by blast
    obtain q where q: "shortest_path g s q v" "path_weight g q = dv"
      using is_distance_shortest_path [OF wf v] by blast
    from sums [of p u q v w] p q rest show ?thesis by simp
  qed
  show ?thesis
    unfolding walks_in_range_def using 1 2 by blast
qed

text \<open>
  Claim C1, amended. For every well-formed graph with non-negative edge weights whose
  distances fit the type \<^verbatim>\<open>int\<close> and every source vertex of the graph, \<^verbatim>\<open>dijkstras\<close>
  returns a map on the vertices of the graph that gives each vertex reachable from the
  source the least weight of a path from the source to it, and each vertex that is not
  reachable the sentinel \<open>INT_MAX\<close>. The distances fit when no shortest path from the
  source weighs more than \<open>INT_MAX\<close> and, for every edge \<open>u\<close>--\<open>v\<close> between two different
  vertices where \<open>u\<close> is at a distance below \<open>INT_MAX\<close> and not farther from the source
  than \<open>v\<close>, the distance of \<open>u\<close> plus the weight of the edge is at most \<open>INT_MAX\<close>.
\<close>

theorem dijkstras_shortest_paths:
  assumes "wf_graph g" and "nonneg_weights g" and "s \<in> set (vertex_list g)"
    and "sums_in_range g s"
  shows "\<exists>dist. dijkstras g s = Inr dist \<and> dom dist = set (vertex_list g) \<and>
     (\<forall>t \<in> set (vertex_list g).
        if \<exists>p. path_between g s p t
        then \<exists>p. shortest_path g s p t \<and> dist t = Some (path_weight g p)
        else dist t = Some INT_MAX)"
proof -
  have range: "walks_in_range g s"
    using assms(1,4) by (rule sums_to_walks)
  obtain dist S where st: "loop_state g s (length (vertex_list g)) = Inr (dist, S)"
    and inv: "dijkstra_inv g s dist S" and c: "card S = length (vertex_list g)"
    and dom: "dom dist = set (vertex_list g)"
    using loop_state_inv [OF assms(2,1,3) range order_refl] by blast
  have d: "distinct (vertex_list g)"
    using assms(1) by (simp add: wf_graph_def)
  have sub: "S \<subseteq> set (vertex_list g)"
    using inv by (simp add: dijkstra_inv_def)
  have S: "S = set (vertex_list g)"
    using sub c d by (intro card_subset_eq) (simp_all add: distinct_card)
  have res: "dijkstras g s = Inr dist"
    using st by (simp add: dijkstras_def loop_state_def)
  have "if \<exists>p. path_between g s p t
        then \<exists>p. shortest_path g s p t \<and> dist t = Some (path_weight g p)
        else dist t = Some INT_MAX" if t: "t \<in> set (vertex_list g)" for t
  proof -
    obtain dt where dt: "dist t = Some dt"
      using dom t by auto
    show ?thesis
    proof (cases "\<exists>p. path_between g s p t")
      case True
      then obtain d0 where "walk g s t d0"
        using walk_iff_path [OF assms(1)] by blast
      then have "is_distance g s t dt"
        using inv_settled [OF inv, of t d0] t S dt by simp
      then show ?thesis
        using True dt is_distance_shortest_path [OF assms(1)] by fastforce
    next
      case False
      then have "\<not> walk g s t dt"
        using walk_iff_path [OF assms(1)] by blast
      moreover have "the (dist t) = INT_MAX \<or> walk g s t (the (dist t))"
        using inv t by (simp add: dijkstra_inv_def)
      ultimately show ?thesis
        using False dt by simp
    qed
  qed
  with res dom show ?thesis by blast
qed

text \<open>
  A certificate that the distances fit: a value \<open>D t\<close> for every vertex that no edge can
  improve, that is the weight of a path from the source to each vertex that has one,
  and that satisfies the two bounds.
\<close>

lemma sums_in_range_certificate:
  assumes start: "D s \<le> 0"
    and feasible: "\<forall>e \<in> set (edge_list g). D (snd (fst e)) \<le> D (fst (fst e)) + snd e"
    and attained: "\<forall>t \<in> set (vertex_list g).
      (\<exists>q. path_between g s q t \<and> path_weight g q = D t) \<or> \<not> (\<exists>q. path_between g s q t)"
    and fit: "\<forall>t \<in> set (vertex_list g). D t \<le> INT_MAX"
    and sums: "\<forall>e \<in> set (edge_list g).
      fst (fst e) \<noteq> snd (fst e) \<and> D (fst (fst e)) < INT_MAX \<and> D (fst (fst e)) \<le> D (snd (fst e))
      \<longrightarrow> D (fst (fst e)) + snd e \<le> INT_MAX"
  shows "sums_in_range g s"
proof -
  have lower: "D t \<le> d" if "walk g s t d" for t d
    using that
  proof (induction rule: walk.induct)
    case walk_start
    show ?case using start by simp
  next
    case (walk_step u d v w)
    have "((u, v), w) \<in> set (edge_list g)"
      using walk_step.hyps(2) by (rule edge_map_in_list)
    with feasible have "D v \<le> D u + w" by fastforce
    with walk_step.IH show ?case by simp
  qed
  have weight: "path_weight g p = D t" and vertex: "t \<in> set (vertex_list g)"
    if sp: "shortest_path g s p t" for p t
  proof -
    have p: "path_between g s p t"
      and least: "\<forall>q. path_between g s q t \<longrightarrow> path_weight g p \<le> path_weight g q"
      using sp by (simp_all add: shortest_path_def)
    show t: "t \<in> set (vertex_list g)"
      using p is_path_last [of g p] by (auto simp: path_between_def)
    then obtain q where q: "path_between g s q t" "path_weight g q = D t"
      using attained p by blast
    have "path_weight g p \<le> D t"
      using least q by auto
    moreover have "walk g s t (path_weight g p)"
      using p path_to_walk [of g p] by (auto simp: path_between_def)
    then have "D t \<le> path_weight g p"
      by (rule lower)
    ultimately show "path_weight g p = D t" by simp
  qed
  have 1: "path_weight g p \<le> INT_MAX" if "shortest_path g s p t" for p t
    using weight [OF that] vertex [OF that] fit by simp
  have 2: "path_weight g p + w \<le> INT_MAX"
    if p: "shortest_path g s p u" and q: "shortest_path g s q v" and uv: "u \<noteq> v"
      and e: "edge_map g u v = Some w" and lt: "path_weight g p < INT_MAX"
      and le: "path_weight g p \<le> path_weight g q" for p q u v w
  proof -
    have "((u, v), w) \<in> set (edge_list g)"
      using e by (rule edge_map_in_list)
    with sums have "u \<noteq> v \<and> D u < INT_MAX \<and> D u \<le> D v \<longrightarrow> D u + w \<le> INT_MAX"
      by fastforce
    then show ?thesis
      using uv lt le weight [OF p] weight [OF q] by simp
  qed
  show ?thesis
    unfolding sums_in_range_def using 1 2 by blast
qed

text \<open>In \<open>two_triangles\<close> the walks from 1 stay in the first triangle.\<close>

lemma two_triangles_walk:
  assumes "walk two_triangles 1 t d"
  shows "t \<in> {1, 2, 3}"
  using assms
proof (induction rule: walk.induct)
  case walk_start
  show ?case by simp
next
  case (walk_step u d v w)
  have "fst ` set (edge_list two_triangles) =
      {(1, 2), (2, 1), (2, 3), (3, 2), (1, 3), (3, 1), (4, 5), (5, 4), (5, 6), (6, 5), (4, 6), (6, 4)}"
    by (simp add: two_triangles_def graph_of_def insert_commute)
  moreover have "(u, v) \<in> fst ` set (edge_list two_triangles)"
    using edge_map_in_list [OF walk_step.hyps(2)] by force
  ultimately show ?case
    using walk_step.IH by auto
qed

lemma two_triangles_unreachable:
  assumes "t \<in> {4, 5, 6}"
  shows "\<not> (\<exists>q. path_between two_triangles 1 q t)"
proof
  assume "\<exists>q. path_between two_triangles 1 q t"
  then obtain q where "is_path two_triangles q" "hd q = 1" "last q = t"
    by (auto simp: path_between_def)
  then have "walk two_triangles 1 t (path_weight two_triangles q)"
    using path_to_walk [of two_triangles q] by simp
  then have "t \<in> {1, 2, 3}"
    by (rule two_triangles_walk)
  with assms show False by auto
qed

lemma triangle_in_range: "sums_in_range triangle ''A''"
proof -
  let ?D = "\<lambda>v. if v = ''A'' then 0 else if v = ''B'' then 1 else (3::int)"
  have V: "vertex_list triangle = [''A'', ''B'', ''C'']" by code_simp
  have pA: "path_between triangle ''A'' [''A''] ''A'' \<and> path_weight triangle [''A''] = ?D ''A''"
    by code_simp
  have pB: "path_between triangle ''A'' [''A'', ''B''] ''B'' \<and>
      path_weight triangle [''A'', ''B''] = ?D ''B''"
    by code_simp
  have pC: "path_between triangle ''A'' [''A'', ''B'', ''C''] ''C'' \<and>
      path_weight triangle [''A'', ''B'', ''C''] = ?D ''C''"
    by code_simp
  show ?thesis
  proof (rule sums_in_range_certificate [where D = ?D])
    show "?D ''A'' \<le> 0" by simp
    show "\<forall>e \<in> set (edge_list triangle). ?D (snd (fst e)) \<le> ?D (fst (fst e)) + snd e"
      by code_simp
    show "\<forall>t \<in> set (vertex_list triangle).
      (\<exists>q. path_between triangle ''A'' q t \<and> path_weight triangle q = ?D t) \<or>
      \<not> (\<exists>q. path_between triangle ''A'' q t)"
      unfolding V using pA pB pC by (simp del: path_weight.simps is_path.simps) blast
    show "\<forall>t \<in> set (vertex_list triangle). ?D t \<le> INT_MAX"
      by code_simp
    show "\<forall>e \<in> set (edge_list triangle).
      fst (fst e) \<noteq> snd (fst e) \<and> ?D (fst (fst e)) < INT_MAX \<and> ?D (fst (fst e)) \<le> ?D (snd (fst e))
      \<longrightarrow> ?D (fst (fst e)) + snd e \<le> INT_MAX"
      by code_simp
  qed
qed

lemma two_triangles_in_range: "sums_in_range two_triangles 1"
proof -
  let ?D = "\<lambda>v::nat. if v = 1 then 0 else (1::int)"
  have V: "vertex_list two_triangles = [1, 2, 3, 4, 5, 6]" by code_simp
  have p1: "path_between two_triangles 1 [1] 1 \<and> path_weight two_triangles [1] = ?D 1"
    by code_simp
  have p2: "path_between two_triangles 1 [1, 2] 2 \<and> path_weight two_triangles [1, 2] = ?D 2"
    by code_simp
  have p3: "path_between two_triangles 1 [1, 3] 3 \<and> path_weight two_triangles [1, 3] = ?D 3"
    by code_simp
  show ?thesis
  proof (rule sums_in_range_certificate [where D = ?D])
    show "?D 1 \<le> 0" by simp
    show "\<forall>e \<in> set (edge_list two_triangles). ?D (snd (fst e)) \<le> ?D (fst (fst e)) + snd e"
      by code_simp
    show "\<forall>t \<in> set (vertex_list two_triangles).
      (\<exists>q. path_between two_triangles 1 q t \<and> path_weight two_triangles q = ?D t) \<or>
      \<not> (\<exists>q. path_between two_triangles 1 q t)"
      unfolding V using p1 p2 p3 two_triangles_unreachable
      by (simp del: path_weight.simps is_path.simps) blast
    show "\<forall>t \<in> set (vertex_list two_triangles). ?D t \<le> INT_MAX"
      by code_simp
    show "\<forall>e \<in> set (edge_list two_triangles).
      fst (fst e) \<noteq> snd (fst e) \<and> ?D (fst (fst e)) < INT_MAX \<and> ?D (fst (fst e)) \<le> ?D (snd (fst e))
      \<longrightarrow> ?D (fst (fst e)) + snd e \<le> INT_MAX"
      by code_simp
  qed
qed

text \<open>
  In \<open>heavy_edge\<close> the distances fit although twice the weight of the edge does not: the
  sum for the way back to the source is never formed. In \<open>longest_edge\<close> the distance of
  vertex 2 is \<open>INT_MAX\<close> itself.
\<close>

lemma heavy_edge_in_range: "sums_in_range heavy_edge 1"
proof -
  let ?D = "\<lambda>v::nat. if v = 1 then 0 else (1073741824::int)"
  have V: "vertex_list heavy_edge = [1, 2]" by code_simp
  have p1: "path_between heavy_edge 1 [1] 1 \<and> path_weight heavy_edge [1] = ?D 1"
    by code_simp
  have p2: "path_between heavy_edge 1 [1, 2] 2 \<and> path_weight heavy_edge [1, 2] = ?D 2"
    by code_simp
  show ?thesis
  proof (rule sums_in_range_certificate [where D = ?D])
    show "?D 1 \<le> 0" by simp
    show "\<forall>e \<in> set (edge_list heavy_edge). ?D (snd (fst e)) \<le> ?D (fst (fst e)) + snd e"
      by code_simp
    show "\<forall>t \<in> set (vertex_list heavy_edge).
      (\<exists>q. path_between heavy_edge 1 q t \<and> path_weight heavy_edge q = ?D t) \<or>
      \<not> (\<exists>q. path_between heavy_edge 1 q t)"
      unfolding V using p1 p2 by (simp del: path_weight.simps is_path.simps) blast
    show "\<forall>t \<in> set (vertex_list heavy_edge). ?D t \<le> INT_MAX"
      by code_simp
    show "\<forall>e \<in> set (edge_list heavy_edge).
      fst (fst e) \<noteq> snd (fst e) \<and> ?D (fst (fst e)) < INT_MAX \<and> ?D (fst (fst e)) \<le> ?D (snd (fst e))
      \<longrightarrow> ?D (fst (fst e)) + snd e \<le> INT_MAX"
      by code_simp
  qed
qed

lemma longest_edge_in_range: "sums_in_range longest_edge 1"
proof -
  let ?D = "\<lambda>v::nat. if v = 1 then 0 else (2147483647::int)"
  have V: "vertex_list longest_edge = [1, 2]" by code_simp
  have p1: "path_between longest_edge 1 [1] 1 \<and> path_weight longest_edge [1] = ?D 1"
    by code_simp
  have p2: "path_between longest_edge 1 [1, 2] 2 \<and> path_weight longest_edge [1, 2] = ?D 2"
    by code_simp
  show ?thesis
  proof (rule sums_in_range_certificate [where D = ?D])
    show "?D 1 \<le> 0" by simp
    show "\<forall>e \<in> set (edge_list longest_edge). ?D (snd (fst e)) \<le> ?D (fst (fst e)) + snd e"
      by code_simp
    show "\<forall>t \<in> set (vertex_list longest_edge).
      (\<exists>q. path_between longest_edge 1 q t \<and> path_weight longest_edge q = ?D t) \<or>
      \<not> (\<exists>q. path_between longest_edge 1 q t)"
      unfolding V using p1 p2 by (simp del: path_weight.simps is_path.simps) blast
    show "\<forall>t \<in> set (vertex_list longest_edge). ?D t \<le> INT_MAX"
      by code_simp
    show "\<forall>e \<in> set (edge_list longest_edge).
      fst (fst e) \<noteq> snd (fst e) \<and> ?D (fst (fst e)) < INT_MAX \<and> ?D (fst (fst e)) \<le> ?D (snd (fst e))
      \<longrightarrow> ?D (fst (fst e)) + snd e \<le> INT_MAX"
      by code_simp
  qed
qed

theorem dijkstras_shortest_paths_witness:
  "(wf_graph triangle \<and> nonneg_weights triangle \<and> ''A'' \<in> set (vertex_list triangle) \<and>
    sums_in_range triangle ''A'' \<and>
    (\<exists>dist. dijkstras triangle ''A'' = Inr dist \<and> dom dist = set (vertex_list triangle) \<and>
      (\<forall>t \<in> set (vertex_list triangle).
         if \<exists>p. path_between triangle ''A'' p t
         then \<exists>p. shortest_path triangle ''A'' p t \<and> dist t = Some (path_weight triangle p)
         else dist t = Some INT_MAX))) \<and>
   (wf_graph two_triangles \<and> nonneg_weights two_triangles \<and>
    1 \<in> set (vertex_list two_triangles) \<and> sums_in_range two_triangles 1 \<and>
    (\<exists>dist. dijkstras two_triangles 1 = Inr dist \<and>
       (\<exists>p. shortest_path two_triangles 1 p 3 \<and> dist 3 = Some (path_weight two_triangles p)) \<and>
       \<not> (\<exists>p. path_between two_triangles 1 p 4) \<and> dist 4 = Some INT_MAX)) \<and>
   (wf_graph heavy_edge \<and> nonneg_weights heavy_edge \<and> 1 \<in> set (vertex_list heavy_edge) \<and>
    sums_in_range heavy_edge 1 \<and>
    (\<exists>dist p. dijkstras heavy_edge 1 = Inr dist \<and> shortest_path heavy_edge 1 p 2 \<and>
       dist 2 = Some (path_weight heavy_edge p))) \<and>
   (wf_graph longest_edge \<and> nonneg_weights longest_edge \<and> 1 \<in> set (vertex_list longest_edge) \<and>
    sums_in_range longest_edge 1 \<and>
    (\<exists>dist p. dijkstras longest_edge 1 = Inr dist \<and> shortest_path longest_edge 1 p 2 \<and>
       dist 2 = Some (path_weight longest_edge p)))"
proof (intro conjI)
  show wf: "wf_graph triangle" by code_simp
  show nn: "nonneg_weights triangle" by code_simp
  show s: "''A'' \<in> set (vertex_list triangle)" by code_simp
  show range: "sums_in_range triangle ''A''" by (rule triangle_in_range)
  from dijkstras_shortest_paths [OF wf nn s range]
  show "\<exists>dist. dijkstras triangle ''A'' = Inr dist \<and> dom dist = set (vertex_list triangle) \<and>
      (\<forall>t \<in> set (vertex_list triangle).
         if \<exists>p. path_between triangle ''A'' p t
         then \<exists>p. shortest_path triangle ''A'' p t \<and> dist t = Some (path_weight triangle p)
         else dist t = Some INT_MAX)" .
next
  show wf: "wf_graph two_triangles" by code_simp
  show nn: "nonneg_weights two_triangles" by code_simp
  show s: "1 \<in> set (vertex_list two_triangles)" by code_simp
  show range: "sums_in_range two_triangles 1" by (rule two_triangles_in_range)
  have V: "vertex_list two_triangles = [1, 2, 3, 4, 5, 6]" by code_simp
  obtain dist where dist: "dijkstras two_triangles 1 = Inr dist"
    and all: "\<forall>t \<in> set (vertex_list two_triangles).
        if \<exists>p. path_between two_triangles 1 p t
        then \<exists>p. shortest_path two_triangles 1 p t \<and> dist t = Some (path_weight two_triangles p)
        else dist t = Some INT_MAX"
    using dijkstras_shortest_paths [OF wf nn s range] by blast
  have "path_between two_triangles 1 [1, 3] 3" by code_simp
  then have r3: "\<exists>p. path_between two_triangles 1 p 3" by blast
  have u4: "\<not> (\<exists>p. path_between two_triangles 1 p 4)"
    by (rule two_triangles_unreachable) simp
  have "3 \<in> set (vertex_list two_triangles)" "4 \<in> set (vertex_list two_triangles)"
    unfolding V by simp_all
  with all r3 u4
  have "(\<exists>p. shortest_path two_triangles 1 p 3 \<and> dist 3 = Some (path_weight two_triangles p))"
    and "dist 4 = Some INT_MAX"
    by (metis (no_types, lifting))+
  with dist u4
  show "\<exists>dist. dijkstras two_triangles 1 = Inr dist \<and>
       (\<exists>p. shortest_path two_triangles 1 p 3 \<and> dist 3 = Some (path_weight two_triangles p)) \<and>
       \<not> (\<exists>p. path_between two_triangles 1 p 4) \<and> dist 4 = Some INT_MAX"
    by blast
next
  show wf: "wf_graph heavy_edge" by code_simp
  show nn: "nonneg_weights heavy_edge" by code_simp
  show s: "1 \<in> set (vertex_list heavy_edge)" by code_simp
  show range: "sums_in_range heavy_edge 1" by (rule heavy_edge_in_range)
  obtain dist where dist: "dijkstras heavy_edge 1 = Inr dist"
    and all: "\<forall>t \<in> set (vertex_list heavy_edge).
        if \<exists>p. path_between heavy_edge 1 p t
        then \<exists>p. shortest_path heavy_edge 1 p t \<and> dist t = Some (path_weight heavy_edge p)
        else dist t = Some INT_MAX"
    using dijkstras_shortest_paths [OF wf nn s range] by blast
  have "path_between heavy_edge 1 [1, 2] 2" by code_simp
  then have r2: "\<exists>p. path_between heavy_edge 1 p 2" by blast
  have "2 \<in> set (vertex_list heavy_edge)" by code_simp
  with all r2
  have "\<exists>p. shortest_path heavy_edge 1 p 2 \<and> dist 2 = Some (path_weight heavy_edge p)"
    by (metis (no_types, lifting))
  with dist
  show "\<exists>dist p. dijkstras heavy_edge 1 = Inr dist \<and> shortest_path heavy_edge 1 p 2 \<and>
       dist 2 = Some (path_weight heavy_edge p)"
    by blast
next
  show wf: "wf_graph longest_edge" by code_simp
  show nn: "nonneg_weights longest_edge" by code_simp
  show s: "1 \<in> set (vertex_list longest_edge)" by code_simp
  show range: "sums_in_range longest_edge 1" by (rule longest_edge_in_range)
  obtain dist where dist: "dijkstras longest_edge 1 = Inr dist"
    and all: "\<forall>t \<in> set (vertex_list longest_edge).
        if \<exists>p. path_between longest_edge 1 p t
        then \<exists>p. shortest_path longest_edge 1 p t \<and> dist t = Some (path_weight longest_edge p)
        else dist t = Some INT_MAX"
    using dijkstras_shortest_paths [OF wf nn s range] by blast
  have "path_between longest_edge 1 [1, 2] 2" by code_simp
  then have r2: "\<exists>p. path_between longest_edge 1 p 2" by blast
  have "2 \<in> set (vertex_list longest_edge)" by code_simp
  with all r2
  have "\<exists>p. shortest_path longest_edge 1 p 2 \<and> dist 2 = Some (path_weight longest_edge p)"
    by (metis (no_types, lifting))
  with dist
  show "\<exists>dist p. dijkstras longest_edge 1 = Inr dist \<and> shortest_path longest_edge 1 p 2 \<and>
       dist 2 = Some (path_weight longest_edge p)"
    by blast
qed

text \<open>In \<open>far_graph\<close> every path from 1 to 3 weighs at least \<open>INT_MAX + 1\<close>.\<close>

lemma far_graph_walk:
  assumes "walk far_graph 1 t d"
  shows "0 \<le> d \<and> (t = 2 \<longrightarrow> 2147483647 \<le> d) \<and> (t = 3 \<longrightarrow> 2147483648 \<le> d)"
  using assms
proof (induction rule: walk.induct)
  case walk_start
  show ?case by simp
next
  case (walk_step u d v w)
  have "set (edge_list far_graph) =
      {((1, 2), 2147483647), ((2, 1), 2147483647), ((2, 3), 1), ((3, 2), 1)}"
    by (simp add: far_graph_def graph_of_def)
  with edge_map_in_list [OF walk_step.hyps(2)]
  have "(u, v, w) \<in> {(1, 2, 2147483647), (2, 1, 2147483647), (2, 3, 1), (3, 2, 1)}"
    by auto
  with walk_step.IH show ?case by auto
qed

text \<open>
  Counterexample to claim C1 as stated. In \<open>far_graph\<close>, with the edges 1--2 of weight
  \<open>INT_MAX\<close> and 2--3 of weight 1, vertex 3 is reachable from 1, and the distance
  that \<^verbatim>\<open>dijkstras\<close> reports for it is not the weight of any shortest path: the map
  holds the sentinel, and every path from 1 to 3 weighs more.
\<close>

theorem dijkstras_sentinel_counterexample:
  "wf_graph far_graph \<and> nonneg_weights far_graph \<and> 1 \<in> set (vertex_list far_graph) \<and>
   path_between far_graph 1 [1, 2, 3] 3 \<and> path_weight far_graph [1, 2, 3] = 2147483648 \<and>
   map_sum id (\<lambda>dist. map dist [1, 2, 3]) (dijkstras far_graph 1) =
     Inr [Some 0, Some 2147483647, Some 2147483647] \<and>
   \<not> (\<exists>dist p. dijkstras far_graph 1 = Inr dist \<and> shortest_path far_graph 1 p 3 \<and>
          dist 3 = Some (path_weight far_graph p))"
proof -
  have wf: "wf_graph far_graph" by code_simp
  have nn: "nonneg_weights far_graph" by code_simp
  have s: "1 \<in> set (vertex_list far_graph)" by code_simp
  have p: "path_between far_graph 1 [1, 2, 3] 3" by code_simp
  have pw: "path_weight far_graph [1, 2, 3] = 2147483648" by code_simp
  have all: "map_sum id (\<lambda>dist. map dist [1, 2, 3]) (dijkstras far_graph 1) =
      Inr [Some 0, Some 2147483647, Some 2147483647]"
    by code_simp
  have run: "map_sum id (\<lambda>dist. dist 3) (dijkstras far_graph 1) = Inr (Some 2147483647)"
    by code_simp
  have "False" if dist: "dijkstras far_graph 1 = Inr dist"
    and sp: "shortest_path far_graph 1 q 3" and eq: "dist 3 = Some (path_weight far_graph q)"
    for dist q
  proof -
    have "dist 3 = Some 2147483647"
      using run dist by simp
    then have "path_weight far_graph q = 2147483647"
      using eq by simp
    moreover have "is_path far_graph q" "hd q = 1" "last q = 3"
      using sp by (simp_all add: shortest_path_def path_between_def)
    then have "walk far_graph 1 3 (path_weight far_graph q)"
      using path_to_walk [of far_graph q] by simp
    then have "2147483648 \<le> path_weight far_graph q"
      using far_graph_walk by blast
    ultimately show False by simp
  qed
  with wf nn s p pw all show ?thesis by blast
qed

subsection \<open>The condition on the distances is necessary\<close>

text \<open>
  An iteration of the main loop selects a vertex of least distance among those not
  selected before and runs the relaxation loop for it.
\<close>

lemma loop_state_next:
  assumes d: "distinct (vertex_list g)" and i: "i < length (vertex_list g)"
    and st: "loop_state g s i = Inr (dist, S)"
  shows "loop_state g s (Suc i) =
      Inr (relaxed g (selected g dist S) (insert (selected g dist S) S) (vertex_list g) dist,
           insert (selected g dist S) S)"
    and "selected g dist S \<in> set (vertex_list g)" and "selected g dist S \<notin> S"
    and "\<forall>v \<in> set (vertex_list g). v \<notin> S \<longrightarrow> the (dist (selected g dist S)) \<le> the (dist v)"
proof -
  have "i \<le> length (vertex_list g)"
    using i by simp
  from loop_state_basic [OF d this, of s] st
  have b: "bounded_on dist (vertex_list g)" and sub: "S \<subseteq> set (vertex_list g)"
    and c: "card S = i"
    by auto
  have lt: "card S < length (vertex_list g)"
    using i c by simp
  have ne: "unprocessed (vertex_list g) S \<noteq> []"
    using d sub lt by (rule unprocessed_nonempty)
  show "loop_state g s (Suc i) =
      Inr (relaxed g (selected g dist S) (insert (selected g dist S) S) (vertex_list g) dist,
           insert (selected g dist S) S)"
    using i st by (simp add: loop_state_Suc dijkstras_step_result [OF d b sub lt])
  show "selected g dist S \<in> set (vertex_list g)" and "selected g dist S \<notin> S"
    and "\<forall>v \<in> set (vertex_list g). v \<notin> S \<longrightarrow> the (dist (selected g dist S)) \<le> the (dist v)"
    using selected_properties [OF b ne] by blast+
qed

text \<open>
  After further iterations the set of selected vertices has grown, no distance has grown,
  and the distances of the vertices selected before have not changed.
\<close>

lemma loop_state_later:
  assumes d: "distinct (vertex_list g)" and ij: "i \<le> j" and j: "j \<le> length (vertex_list g)"
    and sti: "loop_state g s i = Inr (dist, S)"
    and stj: "loop_state g s j = Inr (dist', S')"
  shows "S \<subseteq> S'" and "\<forall>v \<in> set (vertex_list g). the (dist' v) \<le> the (dist v)"
    and "\<forall>v \<in> S. dist' v = dist v"
proof -
  have "S \<subseteq> S' \<and> (\<forall>v \<in> set (vertex_list g). the (dist' v) \<le> the (dist v)) \<and>
      (\<forall>v \<in> S. dist' v = dist v)"
    using ij j stj
  proof (induction j arbitrary: dist' S' rule: dec_induct)
    case base
    with sti show ?case by simp
  next
    case (step k)
    have k: "k \<le> length (vertex_list g)"
      using step.prems(1) by simp
    obtain dk Sk where stk: "loop_state g s k = Inr (dk, Sk)"
      and b: "bounded_on dk (vertex_list g)"
      using loop_state_basic [OF d k, of s] by blast
    have IH: "S \<subseteq> Sk" "\<forall>v \<in> set (vertex_list g). the (dk v) \<le> the (dist v)"
      "\<forall>v \<in> S. dk v = dist v"
      using step.IH [OF k stk] by simp_all
    let ?u = "selected g dk Sk"
    have "loop_state g s (Suc k) =
        Inr (relaxed g ?u (insert ?u Sk) (vertex_list g) dk, insert ?u Sk)"
      using step.prems(1) stk by (intro loop_state_next [OF d]) simp_all
    with step.prems(2)
    have "dist' = relaxed g ?u (insert ?u Sk) (vertex_list g) dk \<and> S' = insert ?u Sk"
      by auto
    then have eq: "dist' = relaxed g ?u (insert ?u Sk) (vertex_list g) dk" "S' = insert ?u Sk"
      by blast+
    have "S \<subseteq> S'"
      using IH(1) eq(2) by auto
    moreover have "the (dist' v) \<le> the (dist v)" if v: "v \<in> set (vertex_list g)" for v
    proof -
      have "dk v \<noteq> None"
        using b v by (auto simp: bounded_on_def)
      then have "the (dist' v) \<le> the (dk v)"
        unfolding eq(1) by (rule relaxed_le)
      with IH(2) v show ?thesis by fastforce
    qed
    moreover have "dist' v = dist v" if v: "v \<in> S" for v
    proof -
      have "v \<in> insert ?u Sk"
        using IH(1) v by auto
      then have "dist' v = dk v"
        unfolding eq(1) by (rule relaxed_settled)
      with IH(3) v show ?thesis by simp
    qed
    ultimately show ?case by blast
  qed
  then show "S \<subseteq> S'" and "\<forall>v \<in> set (vertex_list g). the (dist' v) \<le> the (dist v)"
    and "\<forall>v \<in> S. dist' v = dist v"
    by blast+
qed

text \<open>Every vertex of the set has been selected in an earlier iteration.\<close>

lemma selected_at:
  assumes d: "distinct (vertex_list g)" and j: "j \<le> length (vertex_list g)"
    and stj: "loop_state g s j = Inr (dist', S')" and v: "v \<in> S'"
  shows "\<exists>i dist S. i < j \<and> loop_state g s i = Inr (dist, S) \<and> v = selected g dist S \<and> v \<notin> S"
  using j stj v
proof (induction j arbitrary: dist' S')
  case 0
  then show ?case by (simp add: loop_state_0)
next
  case (Suc k)
  have k: "k \<le> length (vertex_list g)"
    using Suc.prems(1) by simp
  obtain dk Sk where stk: "loop_state g s k = Inr (dk, Sk)"
    using loop_state_basic [OF d k, of s] by blast
  let ?u = "selected g dk Sk"
  have "loop_state g s (Suc k) =
      Inr (relaxed g ?u (insert ?u Sk) (vertex_list g) dk, insert ?u Sk)"
    and u: "?u \<notin> Sk"
    using Suc.prems(1) stk by (intro loop_state_next [OF d]; simp)+
  with Suc.prems(2) have S': "S' = insert ?u Sk" by simp
  show ?case
  proof (cases "v \<in> Sk")
    case True
    from Suc.IH [OF k stk True] obtain i dist S where "i < k"
      "loop_state g s i = Inr (dist, S)" "v = selected g dist S" "v \<notin> S"
      by blast
    then have "i < Suc k \<and> loop_state g s i = Inr (dist, S) \<and> v = selected g dist S \<and> v \<notin> S"
      by simp
    then show ?thesis by blast
  next
    case False
    with Suc.prems(3) S' have "v = ?u" by simp
    with stk u have "k < Suc k \<and> loop_state g s k = Inr (dk, Sk) \<and> v = selected g dk Sk \<and> v \<notin> Sk"
      by simp
    then show ?thesis by blast
  qed
qed

lemma int_add_wraps:
  assumes "INT_MAX < a + b" and "a \<le> INT_MAX" and "b \<le> INT_MAX"
  shows "int_add a b < 0"
proof -
  let ?y = "a + b - 2147483648"
  have "a + b + 2147483648 = ?y + 4294967296"
    by simp
  then have "(a + b + 2147483648) mod 4294967296 = (?y + 4294967296) mod 4294967296"
    by (rule arg_cong)
  also have "\<dots> = ?y mod 4294967296"
    by (rule mod_add_self2)
  also have "\<dots> = ?y"
    using assms by (intro mod_pos_pos_trivial) (simp_all add: INT_MAX_def)
  finally show ?thesis
    using assms by (simp add: int_add_def INT_MAX_def)
qed

text \<open>
  A sum that the relaxation step forms and that exceeds \<open>INT_MAX\<close> leaves a negative
  distance in the map.
\<close>

lemma formed_sum_in_range:
  assumes wf: "wf_graph g" and nn: "nonneg_weights g"
    and fin: "loop_state g s (length (vertex_list g)) = Inr (fd, fS)"
    and pos: "\<forall>t \<in> set (vertex_list g). 0 \<le> the (fd t)"
    and i: "i < length (vertex_list g)"
    and st: "loop_state g s i = Inr (dist, S)"
    and r: "the (dist (selected g dist S)) \<noteq> INT_MAX"
    and e: "edge_map g (selected g dist S) v = Some w"
    and v: "v \<notin> insert (selected g dist S) S"
  shows "the (dist (selected g dist S)) + w \<le> INT_MAX"
    and "fd (selected g dist S) = dist (selected g dist S)"
proof -
  let ?u = "selected g dist S"
  let ?S = "insert ?u S"
  let ?d = "relaxed g ?u ?S (vertex_list g) dist"
  have d: "distinct (vertex_list g)"
    using wf by (simp add: wf_graph_def)
  have next_state: "loop_state g s (Suc i) = Inr (?d, ?S)"
    and uV: "?u \<in> set (vertex_list g)"
    using loop_state_next [OF d i st] by simp_all
  have i': "Suc i \<le> length (vertex_list g)"
    using i by simp
  note later = loop_state_later [OF d i' order_refl next_state fin]
  have "fd ?u = ?d ?u"
    using later(3) by simp
  then show fu: "fd ?u = dist ?u"
    by (simp add: relaxed_settled)
  have u0: "0 \<le> the (dist ?u)"
    using pos uV fu by fastforce
  have vV: "v \<in> set (vertex_list g)"
    using wf e by (rule wf_edge_vertices)
  have w0: "0 \<le> w"
    using nn e by (rule nonneg_edge)
  have "((?u, v), w) \<in> set (edge_list g)"
    using e by (rule edge_map_in_list)
  then have wmax: "w \<le> INT_MAX"
    using wf by (fastforce simp: wf_graph_def)
  have "i \<le> length (vertex_list g)"
    using i by simp
  from loop_state_basic [OF d this, of s] st
  have b: "bounded_on dist (vertex_list g)"
    by auto
  then have umax: "the (dist ?u) \<le> INT_MAX"
    using uV by (auto simp: bounded_on_def)
  show "the (dist ?u) + w \<le> INT_MAX"
  proof (rule ccontr)
    assume "\<not> the (dist ?u) + w \<le> INT_MAX"
    then have "int_add (the (dist ?u)) w < 0"
      using wmax umax by (intro int_add_wraps) simp_all
    moreover have "the (?d v) \<le> int_add (the (dist ?u)) w"
      using vV v e r by (intro relaxed_edge) simp_all
    moreover have "the (fd v) \<le> the (?d v)"
      using later(2) vV by simp
    ultimately have "the (fd v) < 0" by simp
    with pos vV show False by fastforce
  qed
qed

text \<open>
  When all final distances are non-negative, the vertices are selected in the order of
  their distances.
\<close>

lemma selection_order:
  assumes wf: "wf_graph g" and nn: "nonneg_weights g"
    and fin: "loop_state g s (length (vertex_list g)) = Inr (fd, fS)"
    and pos: "\<forall>t \<in> set (vertex_list g). 0 \<le> the (fd t)"
    and i: "i \<le> length (vertex_list g)"
    and st: "loop_state g s i = Inr (dist, S)"
  shows "\<forall>x \<in> S. \<forall>v \<in> set (vertex_list g) - S. the (dist x) \<le> the (dist v)"
  using i st
proof (induction i arbitrary: dist S)
  case 0
  then show ?case by (simp add: loop_state_0)
next
  case (Suc k)
  have d: "distinct (vertex_list g)"
    using wf by (simp add: wf_graph_def)
  have k: "k \<le> length (vertex_list g)" and k': "k < length (vertex_list g)"
    using Suc.prems(1) by simp_all
  obtain dk Sk where stk: "loop_state g s k = Inr (dk, Sk)"
    using loop_state_basic [OF d k, of s] by blast
  let ?u = "selected g dk Sk"
  let ?S = "insert ?u Sk"
  let ?d = "relaxed g ?u ?S (vertex_list g) dk"
  note nxt = loop_state_next [OF d k' stk]
  from nxt(1) Suc.prems(2) have eq: "dist = ?d" "S = ?S" by simp_all
  note IH = Suc.IH [OF k stk]
  have fu: "fd ?u = dk ?u" if "the (dk ?u) \<noteq> INT_MAX" "edge_map g ?u v = Some w" "v \<notin> ?S" for v w
    using formed_sum_in_range(2) [OF wf nn fin pos k' stk that] .
  have "the (?d x) \<le> the (?d v)" if x: "x \<in> ?S" and v: "v \<in> set (vertex_list g) - ?S" for x v
  proof -
    have vV: "v \<in> set (vertex_list g)" and vS: "v \<notin> ?S" and vk: "v \<notin> Sk"
      using v by simp_all
    have dx: "?d x = dk x"
      using x by (rule relaxed_settled)
    have xu: "the (dk x) \<le> the (dk ?u)"
    proof (cases "x = ?u")
      case True
      then show ?thesis by simp
    next
      case False
      with x have "x \<in> Sk" by simp
      with IH nxt(2,3) show ?thesis by simp
    qed
    have uv: "the (dk ?u) \<le> the (dk v)"
      using nxt(4) vV vk by simp
    from relaxed_cases [of g ?u ?S "vertex_list g" dk v]
    have "the (dk ?u) \<le> the (?d v)"
    proof
      assume "?d v = dk v"
      with uv show ?thesis by simp
    next
      assume "\<exists>w. v \<notin> ?S \<and> edge_map g ?u v = Some w \<and> the (dk ?u) \<noteq> INT_MAX \<and>
        ?d v = Some (int_add (the (dk ?u)) w)"
      then obtain w where e: "edge_map g ?u v = Some w" and r: "the (dk ?u) \<noteq> INT_MAX"
        and dv: "?d v = Some (int_add (the (dk ?u)) w)"
        by blast
      have "the (dk ?u) + w \<le> INT_MAX"
        using wf nn fin pos k' stk r e vS by (rule formed_sum_in_range(1))
      moreover have "0 \<le> the (dk ?u)"
        using fu [OF r e vS] pos nxt(2) by fastforce
      moreover have w0: "0 \<le> w"
        using nn e by (rule nonneg_edge)
      ultimately have "int_add (the (dk ?u)) w = the (dk ?u) + w"
        by (intro int_add_exact) (simp_all add: INT_MIN_def)
      with dv w0 show ?thesis by simp
    qed
    with xu dx show ?thesis by simp
  qed
  then show ?case
    unfolding eq by blast
qed


lemma shortest_path_distance:
  assumes wf: "wf_graph g" and sp: "shortest_path g s p t"
  shows "is_distance g s t (path_weight g p)"
proof -
  have p: "path_between g s p t"
    and least: "\<forall>q. path_between g s q t \<longrightarrow> path_weight g p \<le> path_weight g q"
    using sp by (simp_all add: shortest_path_def)
  have "walk g s t (path_weight g p)"
    using p walk_iff_path [OF wf] by blast
  moreover have "path_weight g p \<le> d'" if w: "walk g s t d'" for d'
  proof -
    obtain q where "path_between g s q t" "path_weight g q = d'"
      using w walk_to_path [OF wf] by blast
    with least show ?thesis by auto
  qed
  ultimately show ?thesis
    by (simp add: is_distance_def)
qed

lemma is_distance_unique:
  assumes "is_distance g s t d" and "is_distance g s t d'"
  shows "d = d'"
  using assms by (fastforce simp: is_distance_def)

text \<open>
  Whenever \<^verbatim>\<open>dijkstras\<close> returns the map of the shortest distances, the distances
  fit: on every other graph some reachable vertex is farther than \<open>INT_MAX\<close>, or the
  relaxation step forms a sum above \<open>INT_MAX\<close> and stores a negative distance.
\<close>

lemma sums_in_range_necessary:
  assumes wf: "wf_graph g" and nn: "nonneg_weights g" and s: "s \<in> set (vertex_list g)"
    and res: "dijkstras g s = Inr dist"
    and right: "\<forall>t \<in> set (vertex_list g).
        if \<exists>p. path_between g s p t
        then \<exists>p. shortest_path g s p t \<and> dist t = Some (path_weight g p)
        else dist t = Some INT_MAX"
  shows "sums_in_range g s"
proof -
  let ?n = "length (vertex_list g)"
  have d: "distinct (vertex_list g)"
    using wf by (simp add: wf_graph_def)
  obtain fd fS where fin: "loop_state g s ?n = Inr (fd, fS)"
    and b: "bounded_on fd (vertex_list g)" and sub: "fS \<subseteq> set (vertex_list g)"
    and c: "card fS = ?n"
    using loop_state_basic [OF d order_refl, of s] by blast
  have fS: "fS = set (vertex_list g)"
    using sub c d by (intro card_subset_eq) (simp_all add: distinct_card)
  have "dijkstras g s = Inr fd"
    using fin by (simp add: dijkstras_def loop_state_def)
  with res have dist: "dist = fd" by simp
  have final: "the (fd t) = path_weight g p" if sp: "shortest_path g s p t" for p t
  proof -
    have p: "path_between g s p t"
      using sp by (simp add: shortest_path_def)
    then have t: "t \<in> set (vertex_list g)"
      using is_path_last [of g p] by (auto simp: path_between_def)
    with right p obtain q where q: "shortest_path g s q t" "fd t = Some (path_weight g q)"
      unfolding dist by (metis (no_types, lifting))
    have "path_weight g q = path_weight g p"
      using shortest_path_distance [OF wf q(1)] shortest_path_distance [OF wf sp]
      by (rule is_distance_unique)
    with q(2) show ?thesis by simp
  qed
  have pos: "\<forall>t \<in> set (vertex_list g). 0 \<le> the (fd t)"
  proof
    fix t assume t: "t \<in> set (vertex_list g)"
    show "0 \<le> the (fd t)"
    proof (cases "\<exists>p. path_between g s p t")
      case True
      with right t obtain q where q: "shortest_path g s q t" "fd t = Some (path_weight g q)"
        unfolding dist by (metis (no_types, lifting))
      have "walk g s t (path_weight g q)"
        using shortest_path_distance [OF wf q(1)] by (simp add: is_distance_def)
      with nn have "0 \<le> path_weight g q"
        by (rule walk_nonneg)
      with q(2) show ?thesis by simp
    next
      case False
      with right t have "fd t = Some INT_MAX"
        unfolding dist by (metis (no_types, lifting))
      then show ?thesis
        by (simp add: INT_MAX_def)
    qed
  qed
  have vertex: "t \<in> set (vertex_list g)" if "shortest_path g s p t" for p t
    using that is_path_last [of g p] by (auto simp: shortest_path_def path_between_def)
  have 1: "path_weight g p \<le> INT_MAX" if sp: "shortest_path g s p t" for p t
  proof -
    have "the (fd t) \<le> INT_MAX"
      using b vertex [OF sp] by (auto simp: bounded_on_def)
    with final [OF sp] show ?thesis by simp
  qed
  have 2: "path_weight g p + w \<le> INT_MAX"
    if p: "shortest_path g s p u" and q: "shortest_path g s q v" and uv: "u \<noteq> v"
      and e: "edge_map g u v = Some w" and lt: "path_weight g p < INT_MAX"
      and le: "path_weight g p \<le> path_weight g q" for p q u v w
  proof -
    have fu: "the (fd u) = path_weight g p" and fv: "the (fd v) = path_weight g q"
      using final [OF p] final [OF q] by simp_all
    have "u \<in> fS"
      using vertex [OF p] fS by simp
    then obtain i di Si where i: "i < ?n" and sti: "loop_state g s i = Inr (di, Si)"
      and u: "u = selected g di Si" and uS: "u \<notin> Si"
      using selected_at [OF d order_refl fin] by blast
    have i': "i \<le> ?n"
      using i by simp
    note nxt = loop_state_next [OF d i sti]
    have "Suc i \<le> ?n"
      using i by simp
    from loop_state_later(3) [OF d this order_refl nxt(1) fin]
    have "fd u = relaxed g u (insert u Si) (vertex_list g) di u"
      using u by simp
    then have du: "the (di u) = path_weight g p"
      using fu by (simp add: relaxed_settled)
    show ?thesis
    proof (cases "v \<in> Si")
      case False
      with uv have "v \<notin> insert (selected g di Si) Si"
        using u by simp
      moreover have "the (di (selected g di Si)) \<noteq> INT_MAX"
        using du lt u by simp
      moreover have "edge_map g (selected g di Si) v = Some w"
        using e u by simp
      ultimately have "the (di (selected g di Si)) + w \<le> INT_MAX"
        by (intro formed_sum_in_range(1) [OF wf nn fin pos i sti])
      with du u show ?thesis by simp
    next
      case True
      have "the (di v) \<le> the (di u)"
        using selection_order [OF wf nn fin pos i' sti] True uS vertex [OF p] by simp
      moreover have "fd v = di v"
        using loop_state_later(3) [OF d i' order_refl sti fin] True by simp
      ultimately have eq: "path_weight g q = path_weight g p"
        using du fv le by simp
      obtain j dj Sj where j: "j < i" and stj: "loop_state g s j = Inr (dj, Sj)"
        and v: "v = selected g dj Sj"
        using selected_at [OF d i' sti True] by blast
      have j': "j < ?n" and ji: "Suc j \<le> i"
        using j i by simp_all
      note nxtj = loop_state_next [OF d j' stj]
      have "insert v Sj \<subseteq> Si"
        using loop_state_later(1) [OF d ji i' nxtj(1) sti] v by simp
      then have "u \<notin> insert (selected g dj Sj) Sj"
        using uS v by auto
      moreover have "Suc j \<le> ?n"
        using j' by simp
      from loop_state_later(3) [OF d this order_refl nxtj(1) fin]
      have "fd v = relaxed g v (insert v Sj) (vertex_list g) dj v"
        using v by simp
      then have dv: "the (dj v) = path_weight g q"
        using fv by (simp add: relaxed_settled)
      then have "the (dj (selected g dj Sj)) \<noteq> INT_MAX"
        using eq lt v by simp
      moreover have "edge_map g (selected g dj Sj) u = Some w"
        using wf_edge_sym [OF wf e] v by simp
      ultimately have "the (dj (selected g dj Sj)) + w \<le> INT_MAX"
        by (intro formed_sum_in_range(1) [OF wf nn fin pos j' stj])
      with dv eq v show ?thesis by simp
    qed
  qed
  show ?thesis
    unfolding sums_in_range_def using 1 2 by blast
qed

subsection \<open>Zero vertices\<close>

text \<open>
  Claim C4. On a graph without vertices the five entry points return without a fault:
  \<^verbatim>\<open>is_empty\<close> true, \<^verbatim>\<open>is_connected\<close> true, \<^verbatim>\<open>connected_components\<close> the empty
  list, \<^verbatim>\<open>dijkstras\<close> the empty map and \<^verbatim>\<open>articulation_points\<close> the empty list.
\<close>

theorem zero_vertex_graph:
  assumes "vertex_list g = []"
  shows "is_empty g \<and> is_connected g = Inr True \<and> connected_components g = Inr [] \<and>
         dijkstras g s = Inr Map.empty \<and> articulation_points g = Inr []"
proof -
  have "initial_distances g s = Map.empty"
    using assms by (simp add: fun_eq_iff initial_distances_apply)
  then have "dijkstras g s = Inr Map.empty"
    using assms by (simp add: dijkstras_def dijkstras_loop_def)
  moreover have "connected_components g = Inr []"
    using assms by (simp add: connected_components_def)
  moreover have "articulation_points g = Inr []"
    using assms by (simp add: articulation_points_def)
  ultimately show ?thesis
    using assms by (simp add: is_connected_empty is_empty_def num_vertices_def)
qed

theorem zero_vertex_graph_witness:
  "vertex_list (empty_graph :: nat weighted_graph) = [] \<and>
   is_empty (empty_graph :: nat weighted_graph) \<and>
   is_connected (empty_graph :: nat weighted_graph) = Inr True \<and>
   connected_components (empty_graph :: nat weighted_graph) = Inr [] \<and>
   dijkstras (empty_graph :: nat weighted_graph) 0 = Inr Map.empty \<and>
   articulation_points (empty_graph :: nat weighted_graph) = Inr []"
proof -
  have e: "vertex_list (empty_graph :: nat weighted_graph) = []"
    by (simp add: empty_graph_def)
  from zero_vertex_graph [OF e, of 0] e show ?thesis by simp
qed

subsection \<open>The store\<close>

lemma store_rel_caller: "store_rel \<sigma>0 cs \<sigma> n \<Longrightarrow> \<sigma> Caller_Graph = \<sigma>0 Caller_Graph"
  by (simp add: store_rel_def is_component_def)

lemma store_rel_back:
  assumes "store_rel \<sigma>0 cs \<sigma> n" and "cs \<noteq> []"
  shows "\<sigma> (Component (n - 1)) = last cs"
    and "store_rel \<sigma>0 (butlast cs @ [c]) (\<sigma>(Component (n - 1) := c)) n"
proof -
  have n: "n = length cs" "0 < n"
    using assms by (simp_all add: store_rel_def)
  then show "\<sigma> (Component (n - 1)) = last cs"
    using assms by (simp add: store_rel_def last_conv_nth)
  show "store_rel \<sigma>0 (butlast cs @ [c]) (\<sigma>(Component (n - 1) := c)) n"
    unfolding store_rel_def
  proof (intro conjI allI impI)
    show "n = length (butlast cs @ [c])"
      using n by simp
    fix r assume "\<not> is_component r"
    then show "(\<sigma>(Component (n - 1) := c)) r = \<sigma>0 r"
      using assms(1) by (auto simp: store_rel_def is_component_def)
  next
    fix i assume i: "i < n"
    show "(\<sigma>(Component (n - 1) := c)) (Component i) = (butlast cs @ [c]) ! i"
    proof (cases "i = n - 1")
      case True
      then show ?thesis
        using n by (simp add: nth_append)
    next
      case False
      with i n have "i < length (butlast cs)" by simp
      then show ?thesis
        using assms(1) i False by (simp add: store_rel_def nth_append nth_butlast)
    qed
  qed
qed

lemma store_rel_push:
  assumes "store_rel \<sigma>0 cs \<sigma> n"
  shows "store_rel \<sigma>0 (cs @ [c]) (\<sigma>(Component n := c)) (Suc n)"
  using assms by (auto simp: store_rel_def nth_append less_Suc_eq is_component_def)

lemma on_back_sim:
  assumes "vector_rel \<sigma>0 n cs \<sigma>"
  shows "rel_sum (=) (vector_rel \<sigma>0 n) (on_back f cs) (on_back_of n f \<sigma>)"
proof (cases "cs = []")
  case True
  moreover have "n = 0"
    using assms True by (simp add: vector_rel_def store_rel_def)
  ultimately show ?thesis
    by (simp add: on_back_def on_back_of_def)
next
  case False
  have r: "store_rel \<sigma>0 cs \<sigma> n"
    using assms by (simp add: vector_rel_def)
  then have n: "n \<noteq> 0"
    using False by (simp add: store_rel_def)
  note b = store_rel_back [OF r False]
  show ?thesis
  proof (cases "f (last cs)")
    case (Inl e)
    then show ?thesis
      using False n b(1) by (simp add: on_back_def on_back_of_def)
  next
    case (Inr c)
    then show ?thesis
      using False n b(1) b(2) [of c] by (simp add: on_back_def on_back_of_def vector_rel_def)
  qed
qed

lemma mark_and_add_sim:
  assumes "loop_rel \<sigma>0 s t"
  shows "rel_sum (=) (loop_rel \<sigma>0) (mark_and_add s v) (mark_and_add_on t v)"
proof -
  let ?f = "\<lambda>c. Inr (add_vertex c v) :: fault + 'a weighted_graph"
  have r: "vector_rel \<sigma>0 (fst (snd t)) (fst s) (fst t)" and v: "snd (snd t) = snd s"
    using assms by (simp_all add: loop_rel_def vector_rel_def)
  have sim: "rel_sum (=) (vector_rel \<sigma>0 (fst (snd t)))
      (on_back ?f (fst s)) (on_back_of (fst (snd t)) ?f (fst t))"
    using r by (rule on_back_sim)
  show ?thesis
  proof (cases "on_back ?f (fst s)")
    case (Inl e)
    with sim have "on_back_of (fst (snd t)) ?f (fst t) = Inl e"
      by (cases "on_back_of (fst (snd t)) ?f (fst t)") simp_all
    with Inl show ?thesis
      by (simp add: mark_and_add_def mark_and_add_on_def)
  next
    case (Inr cs)
    with sim obtain \<sigma> where \<sigma>: "on_back_of (fst (snd t)) ?f (fst t) = Inr \<sigma>"
      "vector_rel \<sigma>0 (fst (snd t)) cs \<sigma>"
      by (cases "on_back_of (fst (snd t)) ?f (fst t)") simp_all
    with Inr v show ?thesis
      by (simp add: mark_and_add_def mark_and_add_on_def loop_rel_def vector_rel_def)
  qed
qed

lemma mark_and_add_on_size:
  "mark_and_add_on t v = Inr t' \<Longrightarrow> fst (snd t') = fst (snd t)"
  by (auto simp: mark_and_add_on_def split: sum.splits)

lemma for_each_mark_and_add_on_size:
  "for_each mark_and_add_on t vs = Inr t' \<Longrightarrow> fst (snd t') = fst (snd t)"
proof (induction vs arbitrary: t)
  case Nil
  then show ?case by simp
next
  case (Cons v vs)
  then obtain t1 where t1: "mark_and_add_on t v = Inr t1" "for_each mark_and_add_on t1 vs = Inr t'"
    by (auto split: sum.splits)
  from Cons.IH [OF t1(2)] mark_and_add_on_size [OF t1(1)] show ?case by simp
qed

lemma rebuild_edges_sim:
  assumes "vector_rel \<sigma>0 n cs \<sigma>"
  shows "rel_sum (=) (vector_rel \<sigma>0 n)
           (rebuild_edges (\<sigma>0 Caller_Graph) cs v) (rebuild_edges_on n \<sigma> v)"
proof -
  let ?g = "\<sigma>0 Caller_Graph"
  have g: "\<sigma> Caller_Graph = ?g"
    using assms unfolding vector_rel_def by (rule store_rel_caller)
  have "rel_sum (=) (vector_rel \<sigma>0 n)
      (for_each (\<lambda>cs e. on_back (\<lambda>c. add_edge c v (fst e) (snd e)) cs) cs (neighbours ?g v))
      (for_each (add_edge_on n v) \<sigma> (neighbours ?g v))"
    unfolding add_edge_on_def
    by (rule for_each_sim [where R = "vector_rel \<sigma>0 n", OF assms]) (rule on_back_sim)
  then show ?thesis
    unfolding rebuild_edges_def rebuild_edges_on_def g .
qed

lemma component_step_sim:
  assumes "loop_rel \<sigma>0 s t"
  shows "rel_sum (=) (loop_rel \<sigma>0) (component_step (\<sigma>0 Caller_Graph) s u) (component_step_on t u)"
proof (cases "u \<in> snd s")
  case True
  then show ?thesis
    using assms by (simp add: component_step_def component_step_on_def loop_rel_def Let_def)
next
  case False
  obtain cs vis where s: "s = (cs, vis)" by (cases s)
  obtain \<sigma> n vis' where t: "t = (\<sigma>, n, vis')" by (cases t)
  have r: "store_rel \<sigma>0 cs \<sigma> n" and vis: "vis' = vis"
    using assms s t by (simp_all add: loop_rel_def)
  then have g: "\<sigma> Caller_Graph = \<sigma>0 Caller_Graph"
    by (simp add: store_rel_caller)
  let ?g = "\<sigma>0 Caller_Graph"
  show ?thesis
  proof (cases "depth_first ?g u")
    case (Inl e)
    then show ?thesis
      using False s t g vis by (simp add: component_step_def component_step_on_def Let_def)
  next
    case (Inr vertices)
    let ?s1 = "(cs @ [empty_graph], vis)"
    let ?t1 = "(\<sigma>(Component n := empty_graph), Suc n, vis)"
    have r1: "loop_rel \<sigma>0 ?s1 ?t1"
      using store_rel_push [OF r] by (simp add: loop_rel_def)
    have sim1: "rel_sum (=) (loop_rel \<sigma>0)
        (for_each mark_and_add ?s1 vertices) (for_each mark_and_add_on ?t1 vertices)"
      by (rule for_each_sim [where R = "loop_rel \<sigma>0", OF r1]) (rule mark_and_add_sim)
    have lhs: "component_step ?g s u =
        (case for_each mark_and_add ?s1 vertices of
           Inl e \<Rightarrow> Inl e
         | Inr s' \<Rightarrow>
             (case for_each (rebuild_edges ?g) (fst s') vertices of
                Inl e \<Rightarrow> Inl e | Inr components \<Rightarrow> Inr (components, snd s')))"
      using False s Inr by (simp add: component_step_def)
    have rhs: "component_step_on t u =
        (case for_each mark_and_add_on ?t1 vertices of
           Inl e \<Rightarrow> Inl e
         | Inr s' \<Rightarrow>
             (case for_each (rebuild_edges_on (fst (snd s'))) (fst s') vertices of
                Inl e \<Rightarrow> Inl e | Inr \<sigma>' \<Rightarrow> Inr (\<sigma>', snd s')))"
      using False s t vis g Inr by (simp add: component_step_on_def Let_def)
    show ?thesis
    proof (cases "for_each mark_and_add ?s1 vertices")
      case (Inl e)
      with sim1 have "for_each mark_and_add_on ?t1 vertices = Inl e"
        by (cases "for_each mark_and_add_on ?t1 vertices") simp_all
      with Inl lhs rhs show ?thesis by simp
    next
      case s2: (Inr s2)
      with sim1 obtain t2 where t2: "for_each mark_and_add_on ?t1 vertices = Inr t2"
        "loop_rel \<sigma>0 s2 t2"
        by (cases "for_each mark_and_add_on ?t1 vertices") simp_all
      have n2: "fst (snd t2) = Suc n"
        using for_each_mark_and_add_on_size [OF t2(1)] by simp
      have r2: "vector_rel \<sigma>0 (Suc n) (fst s2) (fst t2)" and v2: "snd (snd t2) = snd s2"
        using t2(2) n2 by (simp_all add: loop_rel_def vector_rel_def)
      have sim2: "rel_sum (=) (vector_rel \<sigma>0 (Suc n))
          (for_each (rebuild_edges ?g) (fst s2) vertices)
          (for_each (rebuild_edges_on (Suc n)) (fst t2) vertices)"
        by (rule for_each_sim [where R = "vector_rel \<sigma>0 (Suc n)", OF r2]) (rule rebuild_edges_sim)
      show ?thesis
      proof (cases "for_each (rebuild_edges ?g) (fst s2) vertices")
        case (Inl e)
        with sim2 have "for_each (rebuild_edges_on (Suc n)) (fst t2) vertices = Inl e"
          by (cases "for_each (rebuild_edges_on (Suc n)) (fst t2) vertices") simp_all
        with Inl s2 t2(1) n2 lhs rhs show ?thesis by simp
      next
        case (Inr cs')
        with sim2 obtain \<sigma>' where \<sigma>':
          "for_each (rebuild_edges_on (Suc n)) (fst t2) vertices = Inr \<sigma>'"
          "store_rel \<sigma>0 cs' \<sigma>' (Suc n)"
          by (cases "for_each (rebuild_edges_on (Suc n)) (fst t2) vertices")
             (simp_all add: vector_rel_def)
        have "loop_rel \<sigma>0 (cs', snd s2) (\<sigma>', snd t2)"
          using \<sigma>'(2) v2 n2 by (simp add: loop_rel_def)
        with Inr \<sigma>'(1) s2 t2(1) n2 lhs rhs show ?thesis by simp
      qed
    qed
  qed
qed

lemma connected_components_on_refines:
  "rel_sum (=) (\<lambda>cs r. fst r = cs \<and> (\<forall>x. \<not> is_component x \<longrightarrow> snd r x = \<sigma> x))
     (connected_components (\<sigma> Caller_Graph)) (connected_components_on \<sigma>)"
proof -
  let ?g = "\<sigma> Caller_Graph"
  have "loop_rel \<sigma> ([], {}) (\<sigma>, 0, {})"
    by (simp add: loop_rel_def store_rel_def)
  then have sim: "rel_sum (=) (loop_rel \<sigma>)
      (for_each (component_step ?g) ([], {}) (vertex_list ?g))
      (for_each component_step_on (\<sigma>, 0, {}) (vertex_list ?g))"
    by (rule for_each_sim [where R = "loop_rel \<sigma>"]) (rule component_step_sim)
  show ?thesis
  proof (cases "for_each (component_step ?g) ([], {}) (vertex_list ?g)")
    case (Inl e)
    with sim have "for_each component_step_on (\<sigma>, 0, {}) (vertex_list ?g) = Inl e"
      by (cases "for_each component_step_on (\<sigma>, 0, {}) (vertex_list ?g)") simp_all
    with Inl show ?thesis
      by (simp add: connected_components_def connected_components_on_def)
  next
    case (Inr s)
    with sim obtain t where t: "for_each component_step_on (\<sigma>, 0, {}) (vertex_list ?g) = Inr t"
      "loop_rel \<sigma> s t"
      by (cases "for_each component_step_on (\<sigma>, 0, {}) (vertex_list ?g)") simp_all
    then have r: "store_rel \<sigma> (fst s) (fst t) (fst (snd t))"
      by (simp add: loop_rel_def)
    then have "map (\<lambda>i. fst t (Component i)) [0..<fst (snd t)] = fst s"
      by (auto simp: store_rel_def intro!: nth_equalityI)
    moreover have "\<forall>x. \<not> is_component x \<longrightarrow> fst t x = \<sigma> x"
      using r by (simp add: store_rel_def)
    ultimately show ?thesis
      using Inr t(1) by (simp add: connected_components_def connected_components_on_def)
  qed
qed

lemma articulation_on_loop:
  "\<exists>\<sigma>'. for_each articulation_step_on (\<sigma>, ps) vs =
          Inr (\<sigma>', ps @ filter (\<lambda>v. is_connected (remove_vertex (\<sigma> Caller_Graph) v) = Inr False) vs) \<and>
        (\<forall>r. r \<noteq> Test_Graph \<longrightarrow> \<sigma>' r = \<sigma> r)"
proof (induction vs arbitrary: \<sigma> ps)
  case Nil
  show ?case by simp
next
  case (Cons v vs)
  let ?g = "\<sigma> Caller_Graph"
  obtain b where b: "is_connected (remove_vertex ?g v) = Inr b"
    using is_connected_total by blast
  let ?ps = "if \<not> b then ps @ [v] else ps"
  let ?\<sigma> = "\<sigma>(Test_Graph := remove_vertex ?g v)"
  have step: "articulation_step_on (\<sigma>, ps) v = Inr (?\<sigma>, ?ps)"
    using b by (simp add: articulation_step_on_def Let_def)
  have g: "?\<sigma> Caller_Graph = ?g" by simp
  obtain \<sigma>' where "for_each articulation_step_on (?\<sigma>, ?ps) vs =
          Inr (\<sigma>', ?ps @ filter (\<lambda>v. is_connected (remove_vertex (?\<sigma> Caller_Graph) v) = Inr False) vs)"
    "\<forall>r. r \<noteq> Test_Graph \<longrightarrow> \<sigma>' r = ?\<sigma> r"
    using Cons.IH [of ?\<sigma> ?ps] by blast
  with step b show ?case
    by (simp only: g) auto
qed

lemma articulation_points_on_refines:
  "\<exists>points \<sigma>'. articulation_points (\<sigma> Caller_Graph) = Inr points \<and>
      articulation_points_on \<sigma> = Inr (points, \<sigma>') \<and> (\<forall>r. r \<noteq> Test_Graph \<longrightarrow> \<sigma>' r = \<sigma> r)"
proof -
  let ?\<sigma> = "\<sigma>(Test_Graph := empty_graph)"
  let ?points = "filter (\<lambda>v. is_connected (remove_vertex (\<sigma> Caller_Graph) v) = Inr False)
      (vertex_list (\<sigma> Caller_Graph))"
  have g: "?\<sigma> Caller_Graph = \<sigma> Caller_Graph" by simp
  obtain \<sigma>' where "for_each articulation_step_on (?\<sigma>, []) (vertex_list (\<sigma> Caller_Graph)) =
      Inr (\<sigma>', [] @ ?points)" "\<forall>r. r \<noteq> Test_Graph \<longrightarrow> \<sigma>' r = ?\<sigma> r"
    using articulation_on_loop [of ?\<sigma> "[]" "vertex_list (\<sigma> Caller_Graph)"]
    by (simp only: g) blast
  then have "articulation_points_on \<sigma> = Inr (?points, \<sigma>')"
    "\<forall>r. r \<noteq> Test_Graph \<longrightarrow> \<sigma>' r = \<sigma> r"
    by (simp_all add: articulation_points_on_def Let_def)
  with articulation_points_filter [of "\<sigma> Caller_Graph"] show ?thesis
    by blast
qed

lemma dijkstras_total:
  assumes "distinct (vertex_list g)"
  shows "\<exists>dist. dijkstras g s = Inr dist"
proof -
  obtain dist spt_set where "loop_state g s (length (vertex_list g)) = Inr (dist, spt_set)"
    using loop_state_basic [OF assms order_refl] by blast
  then have "dijkstras g s = Inr dist"
    by (simp add: dijkstras_def loop_state_def)
  then show ?thesis by blast
qed

text \<open>
  Claim C7. For every store whose caller's graph is well-formed, each of the five entry
  points returns and leaves the caller's graph as it was. \<^verbatim>\<open>articulation_points\<close>
  changes no object but its local \<open>test_graph\<close>, and \<^verbatim>\<open>connected_components\<close> none
  but the components it creates; both return what the functional model returns.
\<close>

theorem caller_graph_unchanged:
  assumes "wf_graph (\<sigma> Caller_Graph)"
  shows "(\<exists>b \<sigma>'. is_empty_on \<sigma> = (b, \<sigma>') \<and> \<sigma>' Caller_Graph = \<sigma> Caller_Graph) \<and>
    (\<exists>b \<sigma>'. is_connected_on \<sigma> = Inr (b, \<sigma>') \<and> \<sigma>' Caller_Graph = \<sigma> Caller_Graph) \<and>
    (\<exists>cs \<sigma>'. connected_components_on \<sigma> = Inr (cs, \<sigma>') \<and>
        connected_components (\<sigma> Caller_Graph) = Inr cs \<and>
        (\<forall>r. \<not> is_component r \<longrightarrow> \<sigma>' r = \<sigma> r) \<and> \<sigma>' Caller_Graph = \<sigma> Caller_Graph) \<and>
    (\<exists>dist \<sigma>'. dijkstras_on \<sigma> s = Inr (dist, \<sigma>') \<and> \<sigma>' Caller_Graph = \<sigma> Caller_Graph) \<and>
    (\<exists>points \<sigma>'. articulation_points_on \<sigma> = Inr (points, \<sigma>') \<and>
        articulation_points (\<sigma> Caller_Graph) = Inr points \<and>
        (\<forall>r. r \<noteq> Test_Graph \<longrightarrow> \<sigma>' r = \<sigma> r) \<and> \<sigma>' Caller_Graph = \<sigma> Caller_Graph)"
proof -
  let ?g = "\<sigma> Caller_Graph"
  have 1: "\<exists>b \<sigma>'. is_empty_on \<sigma> = (b, \<sigma>') \<and> \<sigma>' Caller_Graph = ?g"
    by (simp add: is_empty_on_def)
  obtain b where "is_connected ?g = Inr b"
    using is_connected_total by blast
  then have 2: "\<exists>b \<sigma>'. is_connected_on \<sigma> = Inr (b, \<sigma>') \<and> \<sigma>' Caller_Graph = ?g"
    by (simp add: is_connected_on_def)
  obtain cs where cs: "connected_components ?g = Inr cs"
    using connected_components_inv [OF assms] by blast
  with connected_components_on_refines [of \<sigma>]
  obtain res where res: "connected_components_on \<sigma> = Inr res" "fst res = cs"
    "\<forall>x. \<not> is_component x \<longrightarrow> snd res x = \<sigma> x"
    by (cases "connected_components_on \<sigma>") simp_all
  then obtain \<sigma>c where \<sigma>c: "connected_components_on \<sigma> = Inr (cs, \<sigma>c)"
    "\<forall>r. \<not> is_component r \<longrightarrow> \<sigma>c r = \<sigma> r"
    by (cases res) simp
  then have "\<sigma>c Caller_Graph = ?g"
    by (simp add: is_component_def)
  with cs \<sigma>c have "connected_components_on \<sigma> = Inr (cs, \<sigma>c) \<and>
        connected_components ?g = Inr cs \<and>
        (\<forall>r. \<not> is_component r \<longrightarrow> \<sigma>c r = \<sigma> r) \<and> \<sigma>c Caller_Graph = ?g"
    by simp
  then have 3: "\<exists>cs \<sigma>'. connected_components_on \<sigma> = Inr (cs, \<sigma>') \<and>
        connected_components ?g = Inr cs \<and>
        (\<forall>r. \<not> is_component r \<longrightarrow> \<sigma>' r = \<sigma> r) \<and> \<sigma>' Caller_Graph = ?g"
    by (intro exI)
  have d: "distinct (vertex_list ?g)"
    using assms by (simp add: wf_graph_def)
  obtain dist where "dijkstras ?g s = Inr dist"
    using dijkstras_total [OF d] by blast
  then have 4: "\<exists>dist \<sigma>'. dijkstras_on \<sigma> s = Inr (dist, \<sigma>') \<and> \<sigma>' Caller_Graph = ?g"
    by (simp add: dijkstras_on_def)
  obtain points \<sigma>a where "articulation_points ?g = Inr points"
    "articulation_points_on \<sigma> = Inr (points, \<sigma>a)" "\<forall>r. r \<noteq> Test_Graph \<longrightarrow> \<sigma>a r = \<sigma> r"
    using articulation_points_on_refines [of \<sigma>] by blast
  then have "articulation_points_on \<sigma> = Inr (points, \<sigma>a) \<and>
        articulation_points ?g = Inr points \<and>
        (\<forall>r. r \<noteq> Test_Graph \<longrightarrow> \<sigma>a r = \<sigma> r) \<and> \<sigma>a Caller_Graph = ?g"
    by simp
  then have 5: "\<exists>points \<sigma>'. articulation_points_on \<sigma> = Inr (points, \<sigma>') \<and>
        articulation_points ?g = Inr points \<and>
        (\<forall>r. r \<noteq> Test_Graph \<longrightarrow> \<sigma>' r = \<sigma> r) \<and> \<sigma>' Caller_Graph = ?g"
    by (intro exI)
  from 1 2 3 4 5 show ?thesis by (intro conjI)
qed

theorem caller_graph_unchanged_witness:
  "wf_graph (store_of path_graph Caller_Graph) \<and>
   ((\<exists>b \<sigma>'. is_empty_on (store_of path_graph) = (b, \<sigma>') \<and>
        \<sigma>' Caller_Graph = store_of path_graph Caller_Graph) \<and>
    (\<exists>b \<sigma>'. is_connected_on (store_of path_graph) = Inr (b, \<sigma>') \<and>
        \<sigma>' Caller_Graph = store_of path_graph Caller_Graph) \<and>
    (\<exists>cs \<sigma>'. connected_components_on (store_of path_graph) = Inr (cs, \<sigma>') \<and>
        connected_components (store_of path_graph Caller_Graph) = Inr cs \<and>
        (\<forall>r. \<not> is_component r \<longrightarrow> \<sigma>' r = store_of path_graph r) \<and>
        \<sigma>' Caller_Graph = store_of path_graph Caller_Graph) \<and>
    (\<exists>dist \<sigma>'. dijkstras_on (store_of path_graph) ''A'' = Inr (dist, \<sigma>') \<and>
        \<sigma>' Caller_Graph = store_of path_graph Caller_Graph) \<and>
    (\<exists>points \<sigma>'. articulation_points_on (store_of path_graph) = Inr (points, \<sigma>') \<and>
        articulation_points (store_of path_graph Caller_Graph) = Inr points \<and>
        (\<forall>r. r \<noteq> Test_Graph \<longrightarrow> \<sigma>' r = store_of path_graph r) \<and>
        \<sigma>' Caller_Graph = store_of path_graph Caller_Graph))"
proof -
  have wf: "wf_graph (store_of path_graph Caller_Graph)"
    by code_simp
  show ?thesis
    using wf caller_graph_unchanged [where \<sigma> = "store_of path_graph" and s = "''A''", OF wf]
    by (rule conjI)
qed

text \<open>
  Claim C8. For every store whose caller's graph enumerates its vertices without
  repetition, \<^verbatim>\<open>dijkstras\<close> called again on the store that its first call left returns
  the same map, and \<^verbatim>\<open>articulation_points\<close> called again returns the same list in the
  same order.
\<close>

theorem repeated_calls_agree:
  assumes "distinct (vertex_list (\<sigma> Caller_Graph))"
  shows "(\<exists>dist \<sigma>1 \<sigma>2. dijkstras_on \<sigma> s = Inr (dist, \<sigma>1) \<and> dijkstras_on \<sigma>1 s = Inr (dist, \<sigma>2)) \<and>
    (\<exists>points \<sigma>1 \<sigma>2. articulation_points_on \<sigma> = Inr (points, \<sigma>1) \<and>
        articulation_points_on \<sigma>1 = Inr (points, \<sigma>2))"
proof -
  let ?g = "\<sigma> Caller_Graph"
  obtain dist where "dijkstras ?g s = Inr dist"
    using dijkstras_total [OF assms] by blast
  then have "dijkstras_on \<sigma> s = Inr (dist, \<sigma>)"
    by (simp add: dijkstras_on_def)
  then have 1: "\<exists>dist \<sigma>1 \<sigma>2. dijkstras_on \<sigma> s = Inr (dist, \<sigma>1) \<and> dijkstras_on \<sigma>1 s = Inr (dist, \<sigma>2)"
    by blast
  obtain points \<sigma>1 where p1: "articulation_points ?g = Inr points"
    "articulation_points_on \<sigma> = Inr (points, \<sigma>1)" "\<forall>r. r \<noteq> Test_Graph \<longrightarrow> \<sigma>1 r = \<sigma> r"
    using articulation_points_on_refines [of \<sigma>] by blast
  then have g1: "\<sigma>1 Caller_Graph = ?g" by simp
  obtain points' \<sigma>2 where "articulation_points (\<sigma>1 Caller_Graph) = Inr points'"
    "articulation_points_on \<sigma>1 = Inr (points', \<sigma>2)"
    using articulation_points_on_refines [of \<sigma>1] by blast
  with p1(1,2) g1 have "articulation_points_on \<sigma> = Inr (points, \<sigma>1) \<and>
      articulation_points_on \<sigma>1 = Inr (points, \<sigma>2)"
    by simp
  with 1 show ?thesis by blast
qed

theorem repeated_calls_agree_witness:
  "distinct (vertex_list (store_of path_graph Caller_Graph)) \<and>
   ((\<exists>dist \<sigma>1 \<sigma>2. dijkstras_on (store_of path_graph) ''A'' = Inr (dist, \<sigma>1) \<and>
      dijkstras_on \<sigma>1 ''A'' = Inr (dist, \<sigma>2)) \<and>
    (\<exists>points \<sigma>1 \<sigma>2. articulation_points_on (store_of path_graph) = Inr (points, \<sigma>1) \<and>
      articulation_points_on \<sigma>1 = Inr (points, \<sigma>2)))"
proof -
  have d: "distinct (vertex_list (store_of path_graph Caller_Graph))"
    by code_simp
  show ?thesis
    using d repeated_calls_agree [where \<sigma> = "store_of path_graph" and s = "''A''", OF d]
    by (rule conjI)
qed

end
